theory Spec2Isabelle
  imports Main "HOL-Library.Sublist"
begin

section \<open>Data of commands/execute.go\<close>

text \<open>
  The command \<^verbatim>\<open>ExecuteCommand.Execute\<close> runs one build: it resolves inputs and outputs,
  creates the build, starts the goroutine \<^verbatim>\<open>abortOnSignal\<close>, one goroutine uploading the
  inputs in order, one goroutine per output, renders the event stream and leaves with
  \<^verbatim>\<open>os.Exit\<close>. The goroutines are modelled as an interleaving of atomic steps; the
  collaborators outside the file (\<^verbatim>\<open>rc\<close>, \<^verbatim>\<open>config\<close>, \<^verbatim>\<open>executehelpers\<close>,
  \<^verbatim>\<open>eventstream\<close>, the client) are parameters that fix what each call returns.
\<close>

datatype error = Error string

datatype signal = SIGINT | SIGTERM

record Input =
  input_Name :: string
  input_Path :: string

record Output =
  output_Name :: string
  output_Path :: string

text \<open>What every call of a collaborator returns in one run.\<close>

record env =
  TargetClient :: "error option"
  ValidateClient :: "error option"
  LoadTaskConfig :: "error option"
  DetermineInputs :: "error + Input list"
  DetermineOutputs :: "error + Output list"
  CreateBuild :: "error + int"
  BuildEvents :: "error option"
  Render :: int
  AbortBuild :: "error option"
  Upload :: "Input \<Rightarrow> bool"
  Download :: "Output \<Rightarrow> bool"

text \<open>Everything the code does that can be observed from outside, in the order it happens.\<close>

datatype action =
    A_CreateBuild
  | A_Println_executing int
  | A_Notify
  | A_UploadBegin Input
  | A_UploadEnd Input bool
  | A_CloseInput
  | A_DownloadBegin Output
  | A_DownloadEnd Output bool
  | A_CloseOutput nat
  | A_BuildEvents int
  | A_Render int
  | A_CloseFeed
  | A_RecvInput
  | A_RecvOutput nat
  | A_RecvTerminate signal
  | A_Stderr_aborting
  | A_AbortBuild int
  | A_Stderr_failed_to_abort error
  | A_Stderr_exiting_immediately
  | A_Exit int

text \<open>Program points of \<^verbatim>\<open>Execute\<close> (lines 29 to 130).\<close>

datatype main_pc =
    M_TargetClient
  | M_ValidateClient
  | M_LoadTaskConfig
  | M_DetermineInputs
  | M_DetermineOutputs
  | M_CreateBuild
  | M_Println
  | M_GoAbort
  | M_Notify
  | M_GoInputs
  | M_SpawnOutput nat
  | M_BuildEvents
  | M_Render
  | M_CloseFeed
  | M_WaitInput
  | M_WaitOutput nat
  | M_Exit
  | M_Returned error
  | M_Exited

text \<open>Program points of \<^verbatim>\<open>abortOnSignal\<close> (lines 132 to 151).\<close>

datatype watcher_pc =
    W_NotStarted
  | W_Wait1
  | W_Abort
  | W_InFlight
  | W_Wait2
  | W_Returned
  | W_Exited

text \<open>Program points of the goroutine of lines 88 to 95.\<close>

datatype input_pc =
    I_NotStarted
  | I_Loop nat
  | I_Uploading nat
  | I_Done

text \<open>Program points of one goroutine of lines 101 to 107.\<close>

datatype output_pc =
    O_Start
  | O_Downloading
  | O_Close
  | O_Done

datatype proc = Running | Exited int

record state =
  mpc :: main_pc
  wpc :: watcher_pc
  ipc :: input_pc
  otasks :: "(Output \<times> output_pc) list"
  inputs :: "Input list"
  outputs :: "Output list"
  build_ID :: int
  terminate :: "signal list"
  notified :: bool
  inputChan :: bool
  outputChans :: "bool list"
  exitCode :: int
  log :: "action list"
  proc :: proc

definition init :: state where
  "init = \<lparr>mpc = M_TargetClient, wpc = W_NotStarted, ipc = I_NotStarted, otasks = [],
     inputs = [], outputs = [], build_ID = 0, terminate = [], notified = False,
     inputChan = False, outputChans = [], exitCode = 0, log = [], proc = Running\<rparr>"

section \<open>The steps of each goroutine\<close>

text \<open>
  \<open>None\<close> is a goroutine that cannot move: it blocks on a channel, has not been
  started, or has ended. Channels that are only ever closed are a flag (closed or not);
  \<^verbatim>\<open>terminate\<close> is the buffer of capacity 1 that \<^verbatim>\<open>signal.Notify\<close> fills.
\<close>

definition Execute_step :: "env \<Rightarrow> state \<Rightarrow> state option" where
  "Execute_step E s = (case mpc s of
      M_TargetClient \<Rightarrow> (case TargetClient E of
          Some e \<Rightarrow> Some (s\<lparr>mpc := M_Returned e\<rparr>)
        | None \<Rightarrow> Some (s\<lparr>mpc := M_ValidateClient\<rparr>))
    | M_ValidateClient \<Rightarrow> (case ValidateClient E of
          Some e \<Rightarrow> Some (s\<lparr>mpc := M_Returned e\<rparr>)
        | None \<Rightarrow> Some (s\<lparr>mpc := M_LoadTaskConfig\<rparr>))
    | M_LoadTaskConfig \<Rightarrow> (case LoadTaskConfig E of
          Some e \<Rightarrow> Some (s\<lparr>mpc := M_Returned e\<rparr>)
        | None \<Rightarrow> Some (s\<lparr>mpc := M_DetermineInputs\<rparr>))
    | M_DetermineInputs \<Rightarrow> (case DetermineInputs E of
          Inl e \<Rightarrow> Some (s\<lparr>mpc := M_Returned e\<rparr>)
        | Inr is \<Rightarrow> Some (s\<lparr>mpc := M_DetermineOutputs, inputs := is\<rparr>))
    | M_DetermineOutputs \<Rightarrow> (case DetermineOutputs E of
          Inl e \<Rightarrow> Some (s\<lparr>mpc := M_Returned e\<rparr>)
        | Inr os \<Rightarrow> Some (s\<lparr>mpc := M_CreateBuild, outputs := os\<rparr>))
    | M_CreateBuild \<Rightarrow> (case CreateBuild E of
          Inl e \<Rightarrow> Some (s\<lparr>mpc := M_Returned e\<rparr>)
        | Inr b \<Rightarrow> Some (s\<lparr>mpc := M_Println, build_ID := b, log := log s @ [A_CreateBuild]\<rparr>))
    | M_Println \<Rightarrow>
        Some (s\<lparr>mpc := M_GoAbort, log := log s @ [A_Println_executing (build_ID s)]\<rparr>)
    | M_GoAbort \<Rightarrow> Some (s\<lparr>mpc := M_Notify, terminate := [], wpc := W_Wait1\<rparr>)
    | M_Notify \<Rightarrow> Some (s\<lparr>mpc := M_GoInputs, notified := True, log := log s @ [A_Notify]\<rparr>)
    | M_GoInputs \<Rightarrow>
        Some (s\<lparr>mpc := (if length (outputs s) > 0 then M_SpawnOutput 0 else M_BuildEvents),
                inputChan := False, ipc := I_Loop 0\<rparr>)
    | M_SpawnOutput k \<Rightarrow>
        (if k < length (outputs s)
         then Some (s\<lparr>mpc := M_SpawnOutput (Suc k),
                      outputChans := outputChans s @ [False],
                      otasks := otasks s @ [(outputs s ! k, O_Start)]\<rparr>)
         else Some (s\<lparr>mpc := M_BuildEvents\<rparr>))
    | M_BuildEvents \<Rightarrow> (case BuildEvents E of
          Some e \<Rightarrow> Some (s\<lparr>mpc := M_Returned e\<rparr>)
        | None \<Rightarrow> Some (s\<lparr>mpc := M_Render, log := log s @ [A_BuildEvents (build_ID s)]\<rparr>))
    | M_Render \<Rightarrow>
        Some (s\<lparr>mpc := M_CloseFeed, exitCode := Render E, log := log s @ [A_Render (Render E)]\<rparr>)
    | M_CloseFeed \<Rightarrow> Some (s\<lparr>mpc := M_WaitInput, log := log s @ [A_CloseFeed]\<rparr>)
    | M_WaitInput \<Rightarrow>
        (if inputChan s
         then Some (s\<lparr>mpc := (if length (outputs s) > 0 then M_WaitOutput 0 else M_Exit),
                      log := log s @ [A_RecvInput]\<rparr>)
         else None)
    | M_WaitOutput k \<Rightarrow>
        (if k < length (outputChans s)
         then (if outputChans s ! k
               then Some (s\<lparr>mpc := M_WaitOutput (Suc k), log := log s @ [A_RecvOutput k]\<rparr>)
               else None)
         else Some (s\<lparr>mpc := M_Exit\<rparr>))
    | M_Exit \<Rightarrow>
        Some (s\<lparr>mpc := M_Exited, proc := Exited (exitCode s), log := log s @ [A_Exit (exitCode s)]\<rparr>)
    | M_Returned e \<Rightarrow> None
    | M_Exited \<Rightarrow> None)"

definition abortOnSignal_step :: "env \<Rightarrow> state \<Rightarrow> state option" where
  "abortOnSignal_step E s = (case wpc s of
      W_NotStarted \<Rightarrow> None
    | W_Wait1 \<Rightarrow> (case terminate s of
          [] \<Rightarrow> None
        | sig # rest \<Rightarrow>
            Some (s\<lparr>wpc := W_Abort, terminate := rest,
                    log := log s @ [A_RecvTerminate sig, A_Stderr_aborting]\<rparr>))
    | W_Abort \<Rightarrow> Some (s\<lparr>wpc := W_InFlight, log := log s @ [A_AbortBuild (build_ID s)]\<rparr>)
    | W_InFlight \<Rightarrow> (case AbortBuild E of
          Some e \<Rightarrow> Some (s\<lparr>wpc := W_Returned, log := log s @ [A_Stderr_failed_to_abort e]\<rparr>)
        | None \<Rightarrow> Some (s\<lparr>wpc := W_Wait2\<rparr>))
    | W_Wait2 \<Rightarrow> (case terminate s of
          [] \<Rightarrow> None
        | sig # rest \<Rightarrow>
            Some (s\<lparr>wpc := W_Exited, terminate := rest, proc := Exited 2,
                    log := log s @ [A_RecvTerminate sig, A_Stderr_exiting_immediately, A_Exit 2]\<rparr>))
    | W_Returned \<Rightarrow> None
    | W_Exited \<Rightarrow> None)"

definition input_step :: "env \<Rightarrow> state \<Rightarrow> state option" where
  "input_step E s = (case ipc s of
      I_NotStarted \<Rightarrow> None
    | I_Loop k \<Rightarrow>
        (if k < length (inputs s)
         then (if input_Path (inputs s ! k) \<noteq> ''''
               then Some (s\<lparr>ipc := I_Uploading k, log := log s @ [A_UploadBegin (inputs s ! k)]\<rparr>)
               else Some (s\<lparr>ipc := I_Loop (Suc k)\<rparr>))
         else Some (s\<lparr>ipc := I_Done, inputChan := True, log := log s @ [A_CloseInput]\<rparr>))
    | I_Uploading k \<Rightarrow>
        Some (s\<lparr>ipc := I_Loop (Suc k),
                log := log s @ [A_UploadEnd (inputs s ! k) (Upload E (inputs s ! k))]\<rparr>)
    | I_Done \<Rightarrow> None)"

definition output_step :: "env \<Rightarrow> nat \<Rightarrow> state \<Rightarrow> state option" where
  "output_step E j s =
     (if j < length (otasks s) then
        (case otasks s ! j of
            (o', O_Start) \<Rightarrow>
              (if output_Path o' \<noteq> ''''
               then Some (s\<lparr>otasks := (otasks s)[j := (o', O_Downloading)],
                            log := log s @ [A_DownloadBegin o']\<rparr>)
               else Some (s\<lparr>otasks := (otasks s)[j := (o', O_Close)]\<rparr>))
          | (o', O_Downloading) \<Rightarrow>
              Some (s\<lparr>otasks := (otasks s)[j := (o', O_Close)],
                      log := log s @ [A_DownloadEnd o' (Download E o')]\<rparr>)
          | (o', O_Close) \<Rightarrow>
              Some (s\<lparr>otasks := (otasks s)[j := (o', O_Done)],
                      outputChans := (outputChans s)[j := True],
                      log := log s @ [A_CloseOutput j]\<rparr>)
          | (o', O_Done) \<Rightarrow> None)
      else None)"

text \<open>
  A signal that reaches the process once \<^verbatim>\<open>signal.Notify\<close> has registered the channel:
  the runtime sends without blocking, so the signal is dropped when the buffer is full.
  Before the registration the signal is handled by the runtime, outside this file.
\<close>

definition signal_step :: "signal \<Rightarrow> state \<Rightarrow> state option" where
  "signal_step sig s =
     (if notified s
      then Some (if length (terminate s) < 1 then s\<lparr>terminate := terminate s @ [sig]\<rparr> else s)
      else None)"

datatype event = MainStep | WatcherStep | InputStep | OutputStep nat | Signal signal

text \<open>After \<^verbatim>\<open>os.Exit\<close> nothing moves.\<close>

definition step :: "env \<Rightarrow> event \<Rightarrow> state \<Rightarrow> state option" where
  "step E ev s =
     (if proc s \<noteq> Running then None
      else case ev of
          MainStep \<Rightarrow> Execute_step E s
        | WatcherStep \<Rightarrow> abortOnSignal_step E s
        | InputStep \<Rightarrow> input_step E s
        | OutputStep j \<Rightarrow> output_step E j s
        | Signal sig \<Rightarrow> signal_step sig s)"

fun run_from :: "env \<Rightarrow> event list \<Rightarrow> state \<Rightarrow> state option" where
  "run_from E [] s = Some s"
| "run_from E (ev # evs) s =
     (case step E ev s of None \<Rightarrow> None | Some s' \<Rightarrow> run_from E evs s')"

definition run :: "env \<Rightarrow> event list \<Rightarrow> state option" where
  "run E evs = run_from E evs init"

section \<open>Stages of the main path and invariants\<close>

fun is_Signal :: "event \<Rightarrow> bool" where
  "is_Signal (Signal sig) = True"
| "is_Signal ev = False"

text \<open>\<open>early\<close>: lines 30 to 83, before \<^verbatim>\<open>go abortOnSignal\<close> has run.\<close>

fun early :: "main_pc \<Rightarrow> bool" where
  "early M_TargetClient = True"
| "early M_ValidateClient = True"
| "early M_LoadTaskConfig = True"
| "early M_DetermineInputs = True"
| "early M_DetermineOutputs = True"
| "early M_CreateBuild = True"
| "early M_Println = True"
| "early M_GoAbort = True"
| "early pc = False"

text \<open>\<open>unspawned\<close>: lines 30 to 88, before the first transfer goroutine is started.\<close>

fun unspawned :: "main_pc \<Rightarrow> bool" where
  "unspawned M_Notify = True"
| "unspawned M_GoInputs = True"
| "unspawned pc = early pc"

text \<open>\<open>streaming\<close>: lines 111 to 127, after the loop of line 99.\<close>

fun streaming :: "main_pc \<Rightarrow> bool" where
  "streaming M_BuildEvents = True"
| "streaming M_Render = True"
| "streaming M_CloseFeed = True"
| "streaming M_WaitInput = True"
| "streaming (M_WaitOutput k) = True"
| "streaming M_Exit = True"
| "streaming M_Exited = True"
| "streaming pc = False"

text \<open>\<open>joined\<close>: lines 121 to 127, after the receive of line 119.\<close>

fun joined :: "main_pc \<Rightarrow> bool" where
  "joined (M_WaitOutput k) = True"
| "joined M_Exit = True"
| "joined M_Exited = True"
| "joined pc = False"

fun spawning :: "main_pc \<Rightarrow> nat \<Rightarrow> nat \<Rightarrow> bool" where
  "spawning (M_SpawnOutput k) n m = (n = k \<and> k \<le> m)"
| "spawning pc n m = True"

text \<open>Which goroutines and channels exist at each point of the main path.\<close>

definition spawn_inv :: "state \<Rightarrow> bool" where
  "spawn_inv s =
     ((early (mpc s) \<longrightarrow> wpc s = W_NotStarted) \<and>
      (unspawned (mpc s) \<longrightarrow> ipc s = I_NotStarted \<and> otasks s = []) \<and>
      length (outputChans s) = length (otasks s) \<and>
      spawning (mpc s) (length (otasks s)) (length (outputs s)) \<and>
      (streaming (mpc s) \<longrightarrow> length (otasks s) = length (outputs s)) \<and>
      length (otasks s) \<le> length (outputs s))"

text \<open>
  Each output goroutine holds the output it was started with, and a channel is closed
  exactly when its goroutine is done.
\<close>

definition chan_inv :: "state \<Rightarrow> bool" where
  "chan_inv s =
     (map fst (otasks s) = take (length (otasks s)) (outputs s) \<and>
      outputChans s = map (\<lambda>t. snd t = O_Done) (otasks s) \<and>
      inputChan s = (ipc s = I_Done))"

subsection \<open>Abort calls\<close>

fun is_AbortBuild :: "action \<Rightarrow> bool" where
  "is_AbortBuild (A_AbortBuild b) = True"
| "is_AbortBuild a = False"

definition abort_calls :: "state \<Rightarrow> nat" where
  "abort_calls s = length (filter is_AbortBuild (log s))"

fun aborts_at :: "watcher_pc \<Rightarrow> nat" where
  "aborts_at W_NotStarted = 0"
| "aborts_at W_Wait1 = 0"
| "aborts_at W_Abort = 0"
| "aborts_at pc = 1"

definition abort_inv :: "state \<Rightarrow> bool" where
  "abort_inv s = (abort_calls s = aborts_at (wpc s))"

subsection \<open>Concrete runs\<close>

definition env_ok :: env where
  "env_ok = \<lparr>TargetClient = None, ValidateClient = None, LoadTaskConfig = None,
     DetermineInputs = Inr [\<lparr>input_Name = ''a'', input_Path = ''x''\<rparr>,
                            \<lparr>input_Name = ''b'', input_Path = ''''\<rparr>],
     DetermineOutputs = Inr [\<lparr>output_Name = ''o'', output_Path = ''y''\<rparr>,
                             \<lparr>output_Name = ''p'', output_Path = ''''\<rparr>],
     CreateBuild = Inr 7, BuildEvents = None, Render = 3, AbortBuild = None,
     Upload = (\<lambda>i. True), Download = (\<lambda>i. False)\<rparr>"

text \<open>Three signals: one before the watcher has run, two while the abort call is in flight.\<close>

definition sched_three_signals :: "event list" where
  "sched_three_signals =
     [MainStep, MainStep, MainStep, MainStep, MainStep, MainStep, MainStep, MainStep, MainStep,
      Signal SIGINT, WatcherStep, WatcherStep, Signal SIGINT, Signal SIGTERM, WatcherStep]"

definition base_inv :: "state \<Rightarrow> bool" where
  "base_inv s = (spawn_inv s \<and> chan_inv s)"

subsection \<open>The calls before the build exists\<close>

text \<open>The error of the first call of lines 30 to 77 that fails, in the order of the code.\<close>

definition first_error :: "env \<Rightarrow> error option" where
  "first_error E =
     (case TargetClient E of Some e \<Rightarrow> Some e | None \<Rightarrow>
      (case ValidateClient E of Some e \<Rightarrow> Some e | None \<Rightarrow>
       (case LoadTaskConfig E of Some e \<Rightarrow> Some e | None \<Rightarrow>
        (case DetermineInputs E of Inl e \<Rightarrow> Some e | Inr is \<Rightarrow>
         (case DetermineOutputs E of Inl e \<Rightarrow> Some e | Inr os \<Rightarrow>
          (case CreateBuild E of Inl e \<Rightarrow> Some e | Inr b \<Rightarrow> None))))))"

text \<open>What the calls must have returned for the main path to stand at a program point.\<close>

fun reached :: "env \<Rightarrow> main_pc \<Rightarrow> bool" where
  "reached E M_TargetClient = True"
| "reached E M_ValidateClient = (TargetClient E = None)"
| "reached E M_LoadTaskConfig = (TargetClient E = None \<and> ValidateClient E = None)"
| "reached E M_DetermineInputs =
     (TargetClient E = None \<and> ValidateClient E = None \<and> LoadTaskConfig E = None)"
| "reached E M_DetermineOutputs =
     (TargetClient E = None \<and> ValidateClient E = None \<and> LoadTaskConfig E = None \<and>
      \<not> isl (DetermineInputs E))"
| "reached E M_CreateBuild =
     (TargetClient E = None \<and> ValidateClient E = None \<and> LoadTaskConfig E = None \<and>
      \<not> isl (DetermineInputs E) \<and> \<not> isl (DetermineOutputs E))"
| "reached E (M_Returned e) =
     (first_error E = Some e \<or> (first_error E = None \<and> BuildEvents E = Some e))"
| "reached E M_Render = (first_error E = None \<and> BuildEvents E = None)"
| "reached E M_CloseFeed = (first_error E = None \<and> BuildEvents E = None)"
| "reached E M_WaitInput = (first_error E = None \<and> BuildEvents E = None)"
| "reached E (M_WaitOutput k) = (first_error E = None \<and> BuildEvents E = None)"
| "reached E M_Exit = (first_error E = None \<and> BuildEvents E = None)"
| "reached E M_Exited = (first_error E = None \<and> BuildEvents E = None)"
| "reached E pc = (first_error E = None)"

definition path_inv :: "env \<Rightarrow> state \<Rightarrow> bool" where
  "path_inv E s = reached E (mpc s)"

text \<open>While an early call has failed, nothing but the main path has moved.\<close>

definition idle_inv :: "state \<Rightarrow> bool" where
  "idle_inv s =
     (wpc s = W_NotStarted \<and> ipc s = I_NotStarted \<and> otasks s = [] \<and> \<not> notified s \<and>
      terminate s = [] \<and> log s = [] \<and> proc s = Running)"

text \<open>The number of main steps after which an early error is returned.\<close>

definition returns_after :: "env \<Rightarrow> nat" where
  "returns_after E =
     (if TargetClient E \<noteq> None then 1
      else if ValidateClient E \<noteq> None then 2
      else if LoadTaskConfig E \<noteq> None then 3
      else if isl (DetermineInputs E) then 4
      else if isl (DetermineOutputs E) then 5
      else 6)"

subsection \<open>Exit codes and the watcher\<close>

text \<open>\<open>rendered\<close>: lines 117 to 127, where \<^verbatim>\<open>exitCode\<close> holds the result of \<^verbatim>\<open>Render\<close>.\<close>

fun rendered :: "main_pc \<Rightarrow> bool" where
  "rendered M_CloseFeed = True"
| "rendered M_WaitInput = True"
| "rendered (M_WaitOutput k) = True"
| "rendered M_Exit = True"
| "rendered M_Exited = True"
| "rendered pc = False"

fun exit_by :: "env \<Rightarrow> state \<Rightarrow> proc \<Rightarrow> bool" where
  "exit_by E s Running = (mpc s \<noteq> M_Exited \<and> wpc s \<noteq> W_Exited)"
| "exit_by E s (Exited c) =
     (if wpc s = W_Exited then mpc s \<noteq> M_Exited \<and> c = 2
      else mpc s = M_Exited \<and> c = Render E)"

definition exit_inv :: "env \<Rightarrow> state \<Rightarrow> bool" where
  "exit_inv E s = (exit_by E s (proc s) \<and> (rendered (mpc s) \<longrightarrow> exitCode s = Render E))"

text \<open>\<open>received\<close>: lines 139 to 150, after the first receive from \<^verbatim>\<open>terminate\<close>.\<close>

fun received :: "watcher_pc \<Rightarrow> bool" where
  "received W_NotStarted = False"
| "received W_Wait1 = False"
| "received pc = True"

text \<open>A forced exit is the one of line 150, announced on the error stream at line 149.\<close>

definition forced :: "state \<Rightarrow> bool" where
  "forced s = (A_Stderr_exiting_immediately \<in> set (log s))"

text \<open>What the watcher logs, apart from the exit itself.\<close>

fun watcher_action :: "action \<Rightarrow> bool" where
  "watcher_action (A_RecvTerminate sig) = True"
| "watcher_action A_Stderr_aborting = True"
| "watcher_action (A_AbortBuild b) = True"
| "watcher_action (A_Stderr_failed_to_abort e) = True"
| "watcher_action A_Stderr_exiting_immediately = True"
| "watcher_action a = False"

definition wlog :: "state \<Rightarrow> action list" where
  "wlog s = filter watcher_action (log s)"

fun abort_result :: "env \<Rightarrow> action list \<Rightarrow> watcher_pc \<Rightarrow> bool" where
  "abort_result E l W_Wait2 = (AbortBuild E = None)"
| "abort_result E l W_Exited = (AbortBuild E = None)"
| "abort_result E l W_Returned =
     (case AbortBuild E of None \<Rightarrow> False | Some e \<Rightarrow> A_Stderr_failed_to_abort e \<in> set l)"
| "abort_result E l pc = True"

definition watcher_inv :: "env \<Rightarrow> state \<Rightarrow> bool" where
  "watcher_inv E s =
     ((A_Stderr_aborting \<in> set (wlog s)) = received (wpc s) \<and>
      (A_Stderr_exiting_immediately \<in> set (wlog s)) = (wpc s = W_Exited) \<and>
      abort_result E (wlog s) (wpc s) \<and>
      (received (wpc s) \<longrightarrow> notified s) \<and>
      (terminate s \<noteq> [] \<longrightarrow> notified s))"

text \<open>Without a signal the watcher stays at its first receive.\<close>

definition quiet_inv :: "state \<Rightarrow> bool" where
  "quiet_inv s = (terminate s = [] \<and> \<not> received (wpc s))"

text \<open>The task configuration cannot be loaded.\<close>

definition env_bad_config :: env where
  "env_bad_config = env_ok\<lparr>LoadTaskConfig := Some (Error ''open task.yml: no such file'')\<rparr>"

text \<open>
  Modelled from the spec: \<^verbatim>\<open>eventstream.Render\<close> is not under src/. Section 4.4 gives its
  result as an integer exit status, 0 for success and any non-zero value for a task-level
  failure.
\<close>

definition task_level_code :: "int \<Rightarrow> bool" where
  "task_level_code c = (c \<noteq> 0)"

text \<open>The remote task ends with status 2.\<close>

definition env_exit2 :: env where
  "env_exit2 = env_ok\<lparr>Render := 2\<rparr>"

text \<open>A run to the end with no signal.\<close>

definition sched_plain :: "event list" where
  "sched_plain =
     [MainStep, MainStep, MainStep, MainStep, MainStep, MainStep, MainStep, MainStep, MainStep,
      MainStep, InputStep, InputStep, InputStep, InputStep,
      MainStep, MainStep, MainStep, MainStep, MainStep, MainStep,
      OutputStep 0, OutputStep 0, OutputStep 0, OutputStep 1, OutputStep 1,
      MainStep, MainStep, MainStep, MainStep, MainStep]"

text \<open>Two signals, the abort call succeeds in between: the watcher ends the process.\<close>

definition sched_forced :: "event list" where
  "sched_forced =
     [MainStep, MainStep, MainStep, MainStep, MainStep, MainStep, MainStep, MainStep, MainStep,
      MainStep, InputStep, Signal SIGINT, WatcherStep, WatcherStep, WatcherStep,
      Signal SIGINT, WatcherStep]"

subsection \<open>The second signal\<close>

text \<open>The steps the watcher still has to take, after its first receive, to reach line 150.\<close>

fun watcher_steps_left :: "watcher_pc \<Rightarrow> nat" where
  "watcher_steps_left W_Abort = 3"
| "watcher_steps_left W_InFlight = 2"
| "watcher_steps_left W_Wait2 = 1"
| "watcher_steps_left pc = 0"

text \<open>The abort call fails; the task succeeds.\<close>

definition env_abort_fails :: env where
  "env_abort_fails = env_ok\<lparr>Render := 0, AbortBuild := Some (Error ''connection refused'')\<rparr>"

text \<open>
  A first signal, the abort call fails, a second signal; then the run goes on to its end.
\<close>

definition sched_abort_fails :: "event list" where
  "sched_abort_fails =
     [MainStep, MainStep, MainStep, MainStep, MainStep, MainStep, MainStep, MainStep, MainStep,
      MainStep, Signal SIGINT, WatcherStep, WatcherStep, WatcherStep, Signal SIGINT,
      InputStep, InputStep, InputStep, InputStep,
      MainStep, MainStep, MainStep, MainStep, MainStep, MainStep,
      OutputStep 0, OutputStep 0, OutputStep 0, OutputStep 1, OutputStep 1,
      MainStep, MainStep, MainStep, MainStep, MainStep]"

text \<open>A first signal, and a second one while the abort call is in flight.\<close>

definition sched_in_flight :: "event list" where
  "sched_in_flight =
     [MainStep, MainStep, MainStep, MainStep, MainStep, MainStep, MainStep, MainStep, MainStep,
      MainStep, Signal SIGINT, WatcherStep, WatcherStep, Signal SIGTERM]"

text \<open>A first signal, received by the watcher, which is about to call \<^verbatim>\<open>AbortBuild\<close>.\<close>

definition sched_first_signal :: "event list" where
  "sched_first_signal =
     [MainStep, MainStep, MainStep, MainStep, MainStep, MainStep, MainStep, MainStep, MainStep,
      MainStep, InputStep, Signal SIGINT, WatcherStep]"

subsection \<open>The main path seen without the watcher\<close>

fun watcher_event :: "event \<Rightarrow> bool" where
  "watcher_event WatcherStep = True"
| "watcher_event (Signal sig) = True"
| "watcher_event ev = False"

text \<open>
  Everything but the watcher's program point, the buffer of \<^verbatim>\<open>terminate\<close> and what the
  watcher logs.
\<close>

record main_view =
  v_mpc :: main_pc
  v_ipc :: input_pc
  v_otasks :: "(Output \<times> output_pc) list"
  v_inputs :: "Input list"
  v_outputs :: "Output list"
  v_build_ID :: int
  v_notified :: bool
  v_inputChan :: bool
  v_outputChans :: "bool list"
  v_exitCode :: int
  v_log :: "action list"
  v_proc :: proc

definition view :: "state \<Rightarrow> main_view" where
  "view s = \<lparr>v_mpc = mpc s, v_ipc = ipc s, v_otasks = otasks s, v_inputs = inputs s,
     v_outputs = outputs s, v_build_ID = build_ID s, v_notified = notified s,
     v_inputChan = inputChan s, v_outputChans = outputChans s, v_exitCode = exitCode s,
     v_log = filter (\<lambda>a. \<not> watcher_action a) (log s), v_proc = proc s\<rparr>"

text \<open>While the abort call fails, the watcher cannot reach its second receive.\<close>

definition unescalated :: "state \<Rightarrow> bool" where
  "unescalated s = (wpc s \<noteq> W_Wait2 \<and> wpc s \<noteq> W_Exited)"

subsection \<open>The event feed\<close>

fun stream_action :: "action \<Rightarrow> bool" where
  "stream_action (A_BuildEvents b) = True"
| "stream_action (A_Render c) = True"
| "stream_action A_CloseFeed = True"
| "stream_action A_RecvInput = True"
| "stream_action (A_RecvOutput j) = True"
| "stream_action a = False"

text \<open>\<open>opened\<close>: lines 116 to 127, after \<^verbatim>\<open>BuildEvents\<close> has returned a feed.\<close>

fun opened :: "main_pc \<Rightarrow> bool" where
  "opened M_Render = True"
| "opened pc = rendered pc"

definition stream_inv :: "state \<Rightarrow> bool" where
  "stream_inv s = (opened (mpc s) \<or> filter stream_action (log s) = [])"

text \<open>
  Past line 83 the watcher has been started, past line 85 the channel is registered, past
  line 88 the input goroutine has been started.
\<close>

fun past_inputs :: "main_pc \<Rightarrow> bool" where
  "past_inputs (M_SpawnOutput k) = True"
| "past_inputs pc = streaming pc"

fun past_notify :: "main_pc \<Rightarrow> bool" where
  "past_notify M_GoInputs = True"
| "past_notify pc = past_inputs pc"

fun past_abort :: "main_pc \<Rightarrow> bool" where
  "past_abort M_Notify = True"
| "past_abort pc = past_notify pc"

definition started_inv :: "state \<Rightarrow> bool" where
  "started_inv s =
     ((past_abort (mpc s) \<longrightarrow> wpc s \<noteq> W_NotStarted) \<and>
      (past_notify (mpc s) \<longrightarrow> notified s) \<and>
      (past_inputs (mpc s) \<longrightarrow> ipc s \<noteq> I_NotStarted))"

text \<open>The event feed of the build cannot be opened.\<close>

definition env_feed_fails :: env where
  "env_feed_fails = env_ok\<lparr>BuildEvents := Some (Error ''not authorized'')\<rparr>"

text \<open>Up to line 111, with the transfers started and one of them under way.\<close>

definition sched_before_feed :: "event list" where
  "sched_before_feed =
     [MainStep, MainStep, MainStep, MainStep, MainStep, MainStep, MainStep, MainStep, MainStep,
      MainStep, InputStep, MainStep, MainStep, OutputStep 0, MainStep]"

definition sched_feed_fails :: "event list" where
  "sched_feed_fails = sched_before_feed @ [MainStep]"

subsection \<open>Transfers and completion signals\<close>

fun is_upload :: "action \<Rightarrow> bool" where
  "is_upload (A_UploadBegin i) = True"
| "is_upload (A_UploadEnd i b) = True"
| "is_upload a = False"

definition uploads :: "state \<Rightarrow> action list" where
  "uploads s = filter is_upload (log s)"

text \<open>
  The uploads of a list of inputs done one after another in the order of the list: for
  each input with a path, the call of \<^verbatim>\<open>Upload\<close> and then its return.
\<close>

definition upload_seq :: "env \<Rightarrow> Input list \<Rightarrow> action list" where
  "upload_seq E ins =
     concat (map (\<lambda>i. [A_UploadBegin i, A_UploadEnd i (Upload E i)])
       (filter (\<lambda>i. input_Path i \<noteq> '''') ins))"

fun uploaded :: "env \<Rightarrow> Input list \<Rightarrow> input_pc \<Rightarrow> action list \<Rightarrow> bool" where
  "uploaded E ins I_NotStarted l = (l = [])"
| "uploaded E ins (I_Loop k) l = (k \<le> length ins \<and> l = upload_seq E (take k ins))"
| "uploaded E ins (I_Uploading k) l =
     (k < length ins \<and> input_Path (ins ! k) \<noteq> '''' \<and>
      l = upload_seq E (take k ins) @ [A_UploadBegin (ins ! k)])"
| "uploaded E ins I_Done l = (l = upload_seq E ins)"

definition upload_inv :: "env \<Rightarrow> state \<Rightarrow> bool" where
  "upload_inv E s = uploaded E (inputs s) (ipc s) (uploads s)"

text \<open>How often each completion signal has fired.\<close>

definition input_closes :: "state \<Rightarrow> nat" where
  "input_closes s = length (filter (\<lambda>a. a = A_CloseInput) (log s))"

definition output_closes :: "nat \<Rightarrow> state \<Rightarrow> nat" where
  "output_closes j s = length (filter (\<lambda>a. a = A_CloseOutput j) (log s))"

definition close_inv :: "state \<Rightarrow> bool" where
  "close_inv s =
     (input_closes s = (if ipc s = I_Done then 1 else 0) \<and>
      (\<forall>j. output_closes j s =
         (if j < length (otasks s) \<and> snd (otasks s ! j) = O_Done then 1 else 0)))"

text \<open>The join: no output signal is received before the signal of the inputs.\<close>

fun is_RecvOutput :: "action \<Rightarrow> bool" where
  "is_RecvOutput (A_RecvOutput j) = True"
| "is_RecvOutput a = False"

definition join_order :: "action list \<Rightarrow> bool" where
  "join_order l = (filter is_RecvOutput (takeWhile (\<lambda>a. a \<noteq> A_RecvInput) l) = [])"

definition join_inv :: "state \<Rightarrow> bool" where
  "join_inv s =
     ((A_RecvInput \<in> set (log s)) = joined (mpc s) \<and>
      (joined (mpc s) \<longrightarrow> inputChan s) \<and>
      join_order (log s))"

text \<open>The channels the main path has received from are closed.\<close>

fun waited :: "main_pc \<Rightarrow> bool list \<Rightarrow> bool" where
  "waited (M_WaitOutput k) cs = (k \<le> length cs \<and> list_all id (take k cs))"
| "waited M_Exit cs = list_all id cs"
| "waited M_Exited cs = list_all id cs"
| "waited pc cs = True"

definition wait_inv :: "state \<Rightarrow> bool" where
  "wait_inv s = waited (mpc s) (outputChans s)"

text \<open>A transfer is only ever called for a binding with a path.\<close>

fun with_path :: "action \<Rightarrow> bool" where
  "with_path (A_UploadBegin i) = (input_Path i \<noteq> '''')"
| "with_path (A_DownloadBegin o') = (output_Path o' \<noteq> '''')"
| "with_path a = True"

definition transfer_inv :: "state \<Rightarrow> bool" where
  "transfer_inv s = list_all with_path (log s)"

text \<open>What the output goroutines and the join of the outputs log.\<close>

fun output_action :: "action \<Rightarrow> bool" where
  "output_action (A_DownloadBegin o') = True"
| "output_action (A_DownloadEnd o' b) = True"
| "output_action (A_CloseOutput j) = True"
| "output_action (A_RecvOutput j) = True"
| "output_action a = False"

text \<open>\<open>at_outputs\<close>: the loops of lines 99 to 108 and 122 to 124.\<close>

fun at_outputs :: "main_pc \<Rightarrow> bool" where
  "at_outputs (M_SpawnOutput k) = True"
| "at_outputs (M_WaitOutput k) = True"
| "at_outputs pc = False"

definition no_output_inv :: "state \<Rightarrow> bool" where
  "no_output_inv s =
     (outputs s = [] \<and> \<not> at_outputs (mpc s) \<and> filter output_action (log s) = [])"

text \<open>No output is declared.\<close>

definition env_no_outputs :: env where
  "env_no_outputs = env_ok\<lparr>DetermineOutputs := Inr []\<rparr>"

text \<open>All inputs are handled and the feed is closed: the main path is at line 119.\<close>

definition sched_to_join :: "event list" where
  "sched_to_join =
     [MainStep, MainStep, MainStep, MainStep, MainStep, MainStep, MainStep, MainStep, MainStep,
      MainStep, InputStep, InputStep, InputStep, InputStep, MainStep, MainStep, MainStep]"

text \<open>
  One upload is done, the input without a path is next; both output goroutines have been
  started and have not run.
\<close>

definition sched_mid :: "event list" where
  "sched_mid =
     [MainStep, MainStep, MainStep, MainStep, MainStep, MainStep, MainStep, MainStep, MainStep,
      MainStep, InputStep, InputStep, MainStep, MainStep]"

subsection \<open>A run to the exit\<close>

text \<open>
  A schedule without a signal: the main path up to line 119, the input goroutine to its end,
  each output goroutine to its end, the join and the exit.
\<close>

definition input_sched :: "Input list \<Rightarrow> event list" where
  "input_sched ins =
     concat (map (\<lambda>i. if input_Path i \<noteq> '''' then [InputStep, InputStep] else [InputStep]) ins)
       @ [InputStep]"

fun output_sched :: "nat \<Rightarrow> Output list \<Rightarrow> event list" where
  "output_sched j [] = []"
| "output_sched j (o' # os) =
     (if output_Path o' \<noteq> '''' then [OutputStep j, OutputStep j, OutputStep j]
      else [OutputStep j, OutputStep j]) @ output_sched (Suc j) os"

definition loop_sched :: "Output list \<Rightarrow> event list" where
  "loop_sched outs = (if outs = [] then [] else replicate (Suc (length outs)) MainStep)"

definition full_sched :: "Input list \<Rightarrow> Output list \<Rightarrow> event list" where
  "full_sched ins outs =
     replicate 10 MainStep @ loop_sched outs @ replicate 3 MainStep @ input_sched ins @
     output_sched 0 outs @ [MainStep] @ loop_sched outs @ [MainStep]"

subsection \<open>The input goroutine run to its end\<close>

text \<open>The steps the input goroutine has left, from where it stands.\<close>

definition input_rest :: "state \<Rightarrow> event list" where
  "input_rest s = (case ipc s of
      I_NotStarted \<Rightarrow> []
    | I_Loop k \<Rightarrow> input_sched (drop k (inputs s))
    | I_Uploading k \<Rightarrow> InputStep # input_sched (drop (Suc k) (inputs s))
    | I_Done \<Rightarrow> [])"

text \<open>\<open>unresolved\<close>: lines 30 to 47, where \<^verbatim>\<open>inputs\<close> is not yet assigned, or an early return.\<close>

fun unresolved :: "main_pc \<Rightarrow> bool" where
  "unresolved M_TargetClient = True"
| "unresolved M_ValidateClient = True"
| "unresolved M_LoadTaskConfig = True"
| "unresolved M_DetermineInputs = True"
| "unresolved (M_Returned e) = True"
| "unresolved pc = False"

text \<open>The inputs the goroutine ranges over are those that \<^verbatim>\<open>DetermineInputs\<close> returned.\<close>

definition inputs_inv :: "env \<Rightarrow> state \<Rightarrow> bool" where
  "inputs_inv E s =
     (DetermineInputs E = Inr (inputs s) \<or>
      (inputs s = [] \<and> ipc s = I_NotStarted \<and> unresolved (mpc s)))"

text \<open>Every upload fails.\<close>

definition env_upload_fails :: env where
  "env_upload_fails = env_ok\<lparr>Upload := (\<lambda>i. False)\<rparr>"

text \<open>Three inputs, the second without a path; the upload of the third fails.\<close>

definition env_three_inputs :: env where
  "env_three_inputs = env_ok\<lparr>
     DetermineInputs := Inr [\<lparr>input_Name = ''a'', input_Path = ''x''\<rparr>,
                            \<lparr>input_Name = ''b'', input_Path = ''''\<rparr>,
                            \<lparr>input_Name = ''c'', input_Path = ''z''\<rparr>],
     Upload := (\<lambda>i. input_Name i = ''a'')\<rparr>"

text \<open>No input has a path.\<close>

definition env_no_paths :: env where
  "env_no_paths = env_ok\<lparr>
     DetermineInputs := Inr [\<lparr>input_Name = ''b'', input_Path = ''''\<rparr>,
                            \<lparr>input_Name = ''d'', input_Path = ''''\<rparr>]\<rparr>"

text \<open>The main path is at line 119 and no goroutine has run.\<close>

definition sched_at_join :: "event list" where
  "sched_at_join =
     [MainStep, MainStep, MainStep, MainStep, MainStep, MainStep, MainStep, MainStep, MainStep,
      MainStep, MainStep, MainStep, MainStep, MainStep, MainStep, MainStep]"

text \<open>The same, with the first upload under way.\<close>

definition sched_uploading :: "event list" where
  "sched_uploading = sched_at_join @ [InputStep]"

text \<open>The same, with the input goroutine at its end.\<close>

definition sched_inputs_done :: "event list" where
  "sched_inputs_done =
     sched_at_join @ [InputStep, InputStep, InputStep, InputStep, InputStep, InputStep]"

text \<open>The input goroutine has been started and has not run.\<close>

definition sched_inputs_started :: "event list" where
  "sched_inputs_started =
     [MainStep, MainStep, MainStep, MainStep, MainStep, MainStep, MainStep, MainStep, MainStep,
      MainStep]"

subsection \<open>From any state to the exit\<close>

text \<open>
  \<open>main_dist n pc\<close> bounds the steps the main path takes from \<open>pc\<close> to the join of line
  119, with \<open>n\<close> outputs: it never blocks before.
\<close>

fun main_dist :: "nat \<Rightarrow> main_pc \<Rightarrow> nat" where
  "main_dist n M_TargetClient = n + 14"
| "main_dist n M_ValidateClient = n + 13"
| "main_dist n M_LoadTaskConfig = n + 12"
| "main_dist n M_DetermineInputs = n + 11"
| "main_dist n M_DetermineOutputs = n + 10"
| "main_dist n M_CreateBuild = n + 9"
| "main_dist n M_Println = n + 8"
| "main_dist n M_GoAbort = n + 7"
| "main_dist n M_Notify = n + 6"
| "main_dist n M_GoInputs = n + 5"
| "main_dist n (M_SpawnOutput k) = (n - k) + 4"
| "main_dist n M_BuildEvents = 3"
| "main_dist n M_Render = 2"
| "main_dist n M_CloseFeed = 1"
| "main_dist n pc = 0"

text \<open>\<open>unresolved_out\<close>: lines 30 to 57, where \<^verbatim>\<open>outputs\<close> is not yet assigned, or a return.\<close>

fun unresolved_out :: "main_pc \<Rightarrow> bool" where
  "unresolved_out M_DetermineOutputs = True"
| "unresolved_out pc = unresolved pc"

definition outputs_inv :: "env \<Rightarrow> state \<Rightarrow> bool" where
  "outputs_inv E s =
     (DetermineOutputs E = Inr (outputs s) \<or> (outputs s = [] \<and> unresolved_out (mpc s)))"

text \<open>The steps an output goroutine has left, from where it stands.\<close>

fun output_rest :: "nat \<Rightarrow> Output \<times> output_pc \<Rightarrow> event list" where
  "output_rest j (o', O_Start) =
     (if output_Path o' \<noteq> '''' then [OutputStep j, OutputStep j, OutputStep j]
      else [OutputStep j, OutputStep j])"
| "output_rest j (o', O_Downloading) = [OutputStep j, OutputStep j]"
| "output_rest j (o', O_Close) = [OutputStep j]"
| "output_rest j (o', O_Done) = []"

fun tasks_sched :: "nat \<Rightarrow> (Output \<times> output_pc) list \<Rightarrow> event list" where
  "tasks_sched k [] = []"
| "tasks_sched k (t # ts) = output_rest k t @ tasks_sched (Suc k) ts"

section \<open>Runs and invariants\<close>

lemma run_from_append:
  "run_from E (xs @ ys) s =
     (case run_from E xs s of None \<Rightarrow> None | Some s' \<Rightarrow> run_from E ys s')"
  by (induction xs arbitrary: s) (auto split: option.splits)

lemma run_from_invariant:
  assumes fin: "run_from E evs s = Some s'"
    and start: "P s"
    and pres: "\<And>ev s s'. ev \<in> set evs \<Longrightarrow> P s \<Longrightarrow> step E ev s = Some s' \<Longrightarrow> P s'"
  shows "P s'"
  using fin start pres
proof (induction evs arbitrary: s)
  case Nil
  then show ?case by simp
next
  case (Cons ev evs)
  from Cons.prems(1) obtain t where t: "step E ev s = Some t" and r: "run_from E evs t = Some s'"
    by (auto split: option.splits)
  have Pt: "P t" using Cons.prems(3) [of ev s t] Cons.prems(2) t by simp
  show ?case
  proof (rule Cons.IH [OF r Pt])
    fix ev' u u'
    assume "ev' \<in> set evs" "P u" "step E ev' u = Some u'"
    then show "P u'" using Cons.prems(3) [of ev' u u'] by simp
  qed
qed

lemma step_cases:
  assumes "step E ev s = Some s'"
  obtains (main) "proc s = Running" "ev = MainStep" "Execute_step E s = Some s'"
  | (watcher) "proc s = Running" "ev = WatcherStep" "abortOnSignal_step E s = Some s'"
  | (inp) "proc s = Running" "ev = InputStep" "input_step E s = Some s'"
  | (outp) j where "proc s = Running" "ev = OutputStep j" "output_step E j s = Some s'"
  | (sign) sig where "proc s = Running" "ev = Signal sig" "signal_step sig s = Some s'"
  using assms by (cases ev) (auto simp: step_def split: if_splits)

lemma spawn_inv_Execute: "spawn_inv s \<Longrightarrow> Execute_step E s = Some s' \<Longrightarrow> spawn_inv s'"
  by (cases "mpc s")
    (auto simp: Execute_step_def spawn_inv_def split: option.splits sum.splits if_splits)

lemma spawn_inv_abortOnSignal: "spawn_inv s \<Longrightarrow> abortOnSignal_step E s = Some s' \<Longrightarrow> spawn_inv s'"
  by (cases "wpc s")
    (auto simp: abortOnSignal_step_def spawn_inv_def split: option.splits list.splits)

lemma spawn_inv_input: "spawn_inv s \<Longrightarrow> input_step E s = Some s' \<Longrightarrow> spawn_inv s'"
  by (cases "ipc s")
    (auto simp: input_step_def spawn_inv_def split: if_splits)

lemma spawn_inv_output: "spawn_inv s \<Longrightarrow> output_step E j s = Some s' \<Longrightarrow> spawn_inv s'"
  by (cases "otasks s ! j"; cases "snd (otasks s ! j)")
    (auto simp: output_step_def spawn_inv_def split: if_splits)

lemma spawn_inv_signal: "spawn_inv s \<Longrightarrow> signal_step sig s = Some s' \<Longrightarrow> spawn_inv s'"
  by (auto simp: signal_step_def spawn_inv_def split: if_splits)

lemma spawn_inv_step: "spawn_inv s \<Longrightarrow> step E ev s = Some s' \<Longrightarrow> spawn_inv s'"
  by (erule step_cases)
    (blast intro: spawn_inv_Execute spawn_inv_abortOnSignal spawn_inv_input spawn_inv_output
      spawn_inv_signal)+

lemma spawn_inv_init: "spawn_inv init"
  by (simp add: spawn_inv_def init_def)

lemma map_update_same: "j < length xs \<Longrightarrow> f x = f (xs ! j) \<Longrightarrow> map f (xs[j := x]) = map f xs"
  by (simp add: map_update list_update_same_conv)

declare map_update [simp del]

lemma chan_inv_Execute:
  "spawn_inv s \<Longrightarrow> chan_inv s \<Longrightarrow> Execute_step E s = Some s' \<Longrightarrow> chan_inv s'"
  by (cases "mpc s")
    (auto simp: Execute_step_def spawn_inv_def chan_inv_def take_Suc_conv_app_nth
      split: option.splits sum.splits if_splits)

lemma chan_inv_abortOnSignal: "chan_inv s \<Longrightarrow> abortOnSignal_step E s = Some s' \<Longrightarrow> chan_inv s'"
  by (cases "wpc s")
    (auto simp: abortOnSignal_step_def chan_inv_def split: option.splits list.splits)

lemma chan_inv_input: "chan_inv s \<Longrightarrow> input_step E s = Some s' \<Longrightarrow> chan_inv s'"
  by (cases "ipc s")
    (auto simp: input_step_def chan_inv_def split: if_splits)

lemma chan_inv_output:
  assumes "chan_inv s" and "output_step E j s = Some s'"
  shows "chan_inv s'"
proof -
  from assms(2) have j: "j < length (otasks s)"
    by (simp add: output_step_def split: if_splits)
  obtain o' pc where t: "otasks s ! j = (o', pc)" by (cases "otasks s ! j")
  have f: "map fst ((otasks s)[j := (o', pc')]) = map fst (otasks s)" for pc'
    by (rule map_update_same) (simp_all add: j t)
  have g: "map (\<lambda>t. snd t = O_Done) ((otasks s)[j := (o', pc')])
      = map (\<lambda>t. snd t = O_Done) (otasks s)" if "pc' \<noteq> O_Done" "pc \<noteq> O_Done" for pc'
    by (rule map_update_same) (simp_all add: j t that)
  have h: "map (\<lambda>t. snd t = O_Done) ((otasks s)[j := (o', O_Done)])
      = (map (\<lambda>t. snd t = O_Done) (otasks s))[j := True]"
    by (simp add: map_update)
  show ?thesis
    using assms j t f g h
    by (cases pc) (auto simp: output_step_def chan_inv_def split: if_splits)
qed

lemma chan_inv_signal: "chan_inv s \<Longrightarrow> signal_step sig s = Some s' \<Longrightarrow> chan_inv s'"
  by (auto simp: signal_step_def chan_inv_def split: if_splits)

lemma chan_inv_step:
  "spawn_inv s \<Longrightarrow> chan_inv s \<Longrightarrow> step E ev s = Some s' \<Longrightarrow> chan_inv s'"
  by (erule step_cases)
    (blast intro: chan_inv_Execute chan_inv_abortOnSignal chan_inv_input chan_inv_output
      chan_inv_signal)+

lemma chan_inv_init: "chan_inv init"
  by (simp add: chan_inv_def init_def)

lemma base_inv_step: "base_inv s \<Longrightarrow> step E ev s = Some s' \<Longrightarrow> base_inv s'"
  unfolding base_inv_def using spawn_inv_step chan_inv_step by blast

lemma run_invariant:
  assumes fin: "run E evs = Some s"
    and start: "P init"
    and pres: "\<And>ev s s'. ev \<in> set evs \<Longrightarrow> base_inv s \<Longrightarrow> P s \<Longrightarrow> step E ev s = Some s' \<Longrightarrow> P s'"
  shows "base_inv s \<and> P s"
proof (rule run_from_invariant [where P = "\<lambda>s. base_inv s \<and> P s" and evs = evs and E = E])
  show "run_from E evs init = Some s" using fin by (simp add: run_def)
  show "base_inv init \<and> P init"
    using start spawn_inv_init chan_inv_init by (simp add: base_inv_def)
next
  fix ev s s'
  assume "ev \<in> set evs" "base_inv s \<and> P s" "step E ev s = Some s'"
  then show "base_inv s' \<and> P s'" using pres base_inv_step by blast
qed

lemma abort_inv_Execute:
  "spawn_inv s \<Longrightarrow> abort_inv s \<Longrightarrow> Execute_step E s = Some s' \<Longrightarrow> abort_inv s'"
  by (cases "mpc s")
    (auto simp: Execute_step_def spawn_inv_def abort_inv_def abort_calls_def
      split: option.splits sum.splits if_splits)

lemma abort_inv_abortOnSignal: "abort_inv s \<Longrightarrow> abortOnSignal_step E s = Some s' \<Longrightarrow> abort_inv s'"
  by (cases "wpc s")
    (auto simp: abortOnSignal_step_def abort_inv_def abort_calls_def
      split: option.splits list.splits)

lemma abort_inv_input: "abort_inv s \<Longrightarrow> input_step E s = Some s' \<Longrightarrow> abort_inv s'"
  by (cases "ipc s")
    (auto simp: input_step_def abort_inv_def abort_calls_def split: if_splits)

lemma abort_inv_output: "abort_inv s \<Longrightarrow> output_step E j s = Some s' \<Longrightarrow> abort_inv s'"
  by (cases "otasks s ! j"; cases "snd (otasks s ! j)")
    (auto simp: output_step_def abort_inv_def abort_calls_def split: if_splits)

lemma abort_inv_signal: "abort_inv s \<Longrightarrow> signal_step sig s = Some s' \<Longrightarrow> abort_inv s'"
  by (auto simp: signal_step_def abort_inv_def abort_calls_def split: if_splits)

lemma abort_inv_step:
  "base_inv s \<Longrightarrow> abort_inv s \<Longrightarrow> step E ev s = Some s' \<Longrightarrow> abort_inv s'"
  unfolding base_inv_def
  by (erule step_cases)
    (blast intro: abort_inv_Execute abort_inv_abortOnSignal abort_inv_input abort_inv_output
      abort_inv_signal)+

text \<open>
  Claim C3. In every run, whatever the number of signals delivered and whenever they
  arrive, the log holds at most one call of \<^verbatim>\<open>AbortBuild\<close>.
\<close>

theorem at_most_one_abort:
  "run E evs = Some s \<Longrightarrow> abort_calls s \<le> 1"
proof -
  assume r: "run E evs = Some s"
  have "base_inv s \<and> abort_inv s"
  proof (rule run_invariant [OF r])
    show "abort_inv init" by (simp add: abort_inv_def abort_calls_def init_def)
  qed (rule abort_inv_step)
  then show ?thesis by (cases "wpc s") (simp_all add: abort_inv_def)
qed

theorem at_most_one_abort_witness:
  "\<exists>s. run env_ok sched_three_signals = Some s \<and> abort_calls s \<le> 1"
proof -
  have "map_option proc (run env_ok sched_three_signals) = Some Running" by code_simp
  then obtain s where r: "run env_ok sched_three_signals = Some s" by auto
  from at_most_one_abort [OF r] r show ?thesis by simp
qed

lemma watcher_frame:
  assumes "abortOnSignal_step E s = Some s'"
  shows "mpc s' = mpc s" "ipc s' = ipc s" "otasks s' = otasks s" "inputs s' = inputs s"
    "outputs s' = outputs s" "build_ID s' = build_ID s" "notified s' = notified s"
    "inputChan s' = inputChan s" "outputChans s' = outputChans s" "exitCode s' = exitCode s"
  using assms
  by (cases "wpc s"; auto simp: abortOnSignal_step_def split: option.splits list.splits)+

lemma input_frame:
  assumes "input_step E s = Some s'"
  shows "mpc s' = mpc s" "wpc s' = wpc s" "otasks s' = otasks s" "inputs s' = inputs s"
    "outputs s' = outputs s" "build_ID s' = build_ID s" "notified s' = notified s"
    "terminate s' = terminate s" "outputChans s' = outputChans s" "exitCode s' = exitCode s"
    "proc s' = proc s"
  using assms
  by (cases "ipc s"; auto simp: input_step_def split: if_splits)+

lemma output_frame:
  assumes "output_step E j s = Some s'"
  shows "mpc s' = mpc s" "wpc s' = wpc s" "ipc s' = ipc s" "inputs s' = inputs s"
    "outputs s' = outputs s" "build_ID s' = build_ID s" "notified s' = notified s"
    "terminate s' = terminate s" "inputChan s' = inputChan s" "exitCode s' = exitCode s"
    "proc s' = proc s" "length (otasks s') = length (otasks s)"
  using assms
  by (cases "otasks s ! j"; cases "snd (otasks s ! j)";
      auto simp: output_step_def split: if_splits)+

lemma signal_frame:
  assumes "signal_step sig s = Some s'"
  shows "mpc s' = mpc s" "wpc s' = wpc s" "ipc s' = ipc s" "otasks s' = otasks s"
    "inputs s' = inputs s" "outputs s' = outputs s" "build_ID s' = build_ID s"
    "notified s' = notified s" "inputChan s' = inputChan s" "outputChans s' = outputChans s"
    "exitCode s' = exitCode s" "log s' = log s" "proc s' = proc s"
    "notified s" "terminate s' \<noteq> []"
  using assms by (auto simp: signal_step_def split: if_splits)

lemma path_inv_step: "path_inv E s \<Longrightarrow> step E ev s = Some s' \<Longrightarrow> path_inv E s'"
proof (erule step_cases)
  assume "path_inv E s" "Execute_step E s = Some s'"
  then show "path_inv E s'"
    by (cases "mpc s")
      (auto simp: Execute_step_def path_inv_def first_error_def
        split: option.splits sum.splits if_splits)
qed (simp_all add: path_inv_def watcher_frame input_frame output_frame signal_frame)


lemma idle_inv_step:
  assumes fe: "first_error E = Some e"
    and p: "path_inv E s" and i: "idle_inv s" and st: "step E ev s = Some s'"
  shows "idle_inv s'"
  using st
proof (cases rule: step_cases)
  case main
  with fe p i show ?thesis
    by (cases "mpc s")
      (auto simp: Execute_step_def path_inv_def idle_inv_def first_error_def
        split: option.splits sum.splits if_splits)
next
  case watcher
  with i show ?thesis by (simp add: idle_inv_def abortOnSignal_step_def)
next
  case inp
  with i show ?thesis by (simp add: idle_inv_def input_step_def)
next
  case (outp j)
  with i show ?thesis by (simp add: idle_inv_def output_step_def)
next
  case (sign sig)
  with i show ?thesis by (simp add: idle_inv_def signal_step_def)
qed

lemma path_inv_init: "path_inv E init"
  by (simp add: path_inv_def init_def)

lemma early_inv_run:
  assumes fe: "first_error E = Some e" and r: "run E evs = Some s"
  shows "path_inv E s \<and> idle_inv s"
proof (rule run_from_invariant [where P = "\<lambda>s. path_inv E s \<and> idle_inv s" and evs = evs and E = E])
  show "run_from E evs init = Some s" using r by (simp add: run_def)
  show "path_inv E init \<and> idle_inv init" by (simp add: path_inv_init) (simp add: idle_inv_def init_def)
next
  fix ev s s'
  assume "path_inv E s \<and> idle_inv s" "step E ev s = Some s'"
  then show "path_inv E s' \<and> idle_inv s'"
    using path_inv_step idle_inv_step [OF fe] by blast
qed

lemma returns_early:
  assumes "first_error E = Some e"
  shows "map_option mpc (run E (replicate (returns_after E) MainStep)) = Some (M_Returned e)"
proof -
  consider (a) "TargetClient E = Some e"
    | (b) "TargetClient E = None" "ValidateClient E = Some e"
    | (c) "TargetClient E = None" "ValidateClient E = None" "LoadTaskConfig E = Some e"
    | (d) "TargetClient E = None" "ValidateClient E = None" "LoadTaskConfig E = None"
        "DetermineInputs E = Inl e"
    | (e) ins where "TargetClient E = None" "ValidateClient E = None" "LoadTaskConfig E = None"
        "DetermineInputs E = Inr ins" "DetermineOutputs E = Inl e"
    | (f) ins outs where "TargetClient E = None" "ValidateClient E = None" "LoadTaskConfig E = None"
        "DetermineInputs E = Inr ins" "DetermineOutputs E = Inr outs" "CreateBuild E = Inl e"
    using assms by (auto simp: first_error_def split: option.splits sum.splits)
  then show ?thesis
  proof cases
    case a
    then show ?thesis
      by (simp add: returns_after_def run_def init_def step_def Execute_step_def)
  next
    case b
    then show ?thesis
      by (simp add: returns_after_def run_def init_def step_def Execute_step_def eval_nat_numeral)
  next
    case c
    then show ?thesis
      by (simp add: returns_after_def run_def init_def step_def Execute_step_def eval_nat_numeral)
  next
    case d
    then show ?thesis
      by (simp add: returns_after_def run_def init_def step_def Execute_step_def eval_nat_numeral)
  next
    case e
    then show ?thesis
      by (simp add: returns_after_def run_def init_def step_def Execute_step_def eval_nat_numeral)
  next
    case f
    then show ?thesis
      by (simp add: returns_after_def run_def init_def step_def Execute_step_def eval_nat_numeral)
  qed
qed

lemma returned_stuck:
  assumes "idle_inv s" "mpc s = M_Returned e"
  shows "step E ev s = None"
  using assms
  by (cases ev)
    (simp_all add: step_def idle_inv_def Execute_step_def abortOnSignal_step_def input_step_def
      output_step_def signal_step_def)

text \<open>
  Claim C9. When one of the calls of lines 30 to 77 fails (target client, client validation,
  task configuration, inputs, outputs, build creation), then in every run no goroutine has
  been started, \<^verbatim>\<open>signal.Notify\<close> has not been called, nothing has been logged (no
  build, no transfer, no event feed), the process has not exited, and an error that
  \<^verbatim>\<open>Execute\<close> returned is that of the first failing call, after which nothing can
  move; and \<^verbatim>\<open>Execute\<close> does return it, after \<open>returns_after E\<close> steps.
\<close>

theorem early_error_returned:
  assumes "first_error E = Some e" and "run E evs = Some s"
  shows "wpc s = W_NotStarted \<and> ipc s = I_NotStarted \<and> otasks s = [] \<and> \<not> notified s \<and>
    log s = [] \<and> proc s = Running \<and>
    (\<forall>e'. mpc s = M_Returned e' \<longrightarrow> e' = e \<and> (\<forall>ev. step E ev s = None)) \<and>
    map_option mpc (run E (replicate (returns_after E) MainStep)) = Some (M_Returned e)"
proof -
  from early_inv_run [OF assms] have p: "path_inv E s" and i: "idle_inv s" by simp_all
  have "e' = e \<and> (\<forall>ev. step E ev s = None)" if "mpc s = M_Returned e'" for e'
    using p i that assms(1) returned_stuck [OF i that] by (simp add: path_inv_def)
  with i returns_early [OF assms(1)] show ?thesis by (simp add: idle_inv_def)
qed

theorem early_error_returned_witness:
  "first_error env_bad_config = Some (Error ''open task.yml: no such file'') \<and>
   (\<exists>s. run env_bad_config [MainStep, MainStep, MainStep] = Some s \<and>
      mpc s = M_Returned (Error ''open task.yml: no such file'') \<and>
      wpc s = W_NotStarted \<and> ipc s = I_NotStarted \<and> otasks s = [] \<and> \<not> notified s \<and>
      log s = [] \<and> proc s = Running)"
proof -
  have fe: "first_error env_bad_config = Some (Error ''open task.yml: no such file'')"
    by (simp add: first_error_def env_bad_config_def env_ok_def)
  have "map_option mpc (run env_bad_config [MainStep, MainStep, MainStep])
      = Some (M_Returned (Error ''open task.yml: no such file''))"
    by code_simp
  then obtain s where r: "run env_bad_config [MainStep, MainStep, MainStep] = Some s"
    and m: "mpc s = M_Returned (Error ''open task.yml: no such file'')"
    by auto
  from early_error_returned [OF fe r] m fe r show ?thesis by simp
qed

lemma exit_inv_step: "exit_inv E s \<Longrightarrow> step E ev s = Some s' \<Longrightarrow> exit_inv E s'"
proof (erule step_cases)
  assume "exit_inv E s" "proc s = Running" "Execute_step E s = Some s'"
  then show "exit_inv E s'"
    by (cases "mpc s")
      (auto simp: Execute_step_def exit_inv_def split: option.splits sum.splits if_splits)
next
  assume "exit_inv E s" "proc s = Running" "abortOnSignal_step E s = Some s'"
  then show "exit_inv E s'"
    by (cases "wpc s")
      (auto simp: abortOnSignal_step_def exit_inv_def split: option.splits list.splits)
qed (simp_all add: exit_inv_def input_frame output_frame signal_frame)

lemma exit_inv_init: "exit_inv E init"
  by (simp add: exit_inv_def init_def)

lemma exit_inv_run: "run E evs = Some s \<Longrightarrow> exit_inv E s"
  unfolding run_def
  by (rule run_from_invariant [where P = "exit_inv E"]) (auto intro: exit_inv_init exit_inv_step)


lemma main_frame:
  assumes "Execute_step E s = Some s'"
  shows "wlog s' = wlog s"
    "wpc s' = (if mpc s = M_GoAbort then W_Wait1 else wpc s)"
    "terminate s' = (if mpc s = M_GoAbort then [] else terminate s)"
    "notified s' = (notified s \<or> mpc s = M_Notify)"
    "ipc s' = (if mpc s = M_GoInputs then I_Loop 0 else ipc s)"
  using assms
  by (cases "mpc s";
      auto simp: Execute_step_def wlog_def split: option.splits sum.splits if_splits)+

lemma input_wlog: "input_step E s = Some s' \<Longrightarrow> wlog s' = wlog s"
  by (cases "ipc s") (auto simp: input_step_def wlog_def split: if_splits)

lemma output_wlog: "output_step E j s = Some s' \<Longrightarrow> wlog s' = wlog s"
  by (cases "otasks s ! j"; cases "snd (otasks s ! j)")
    (auto simp: output_step_def wlog_def split: if_splits)

lemma signal_wlog: "signal_step sig s = Some s' \<Longrightarrow> wlog s' = wlog s"
  by (simp add: wlog_def signal_frame)

lemma forced_wlog: "forced s = (A_Stderr_exiting_immediately \<in> set (wlog s))"
  by (simp add: forced_def wlog_def)

lemma watcher_inv_step:
  assumes b: "base_inv s" and w: "watcher_inv E s" and st: "step E ev s = Some s'"
  shows "watcher_inv E s'"
  using st
proof (cases rule: step_cases)
  case main
  from b have "early (mpc s) \<longrightarrow> wpc s = W_NotStarted"
    by (simp add: base_inv_def spawn_inv_def)
  with w main_frame [OF main(3)] show ?thesis
    by (cases "mpc s = M_GoAbort") (auto simp: watcher_inv_def)
next
  case watcher
  with w show ?thesis
    by (cases "wpc s")
      (auto simp: abortOnSignal_step_def watcher_inv_def wlog_def
        split: option.splits list.splits)
next
  case inp
  with w show ?thesis
    by (simp add: watcher_inv_def input_wlog input_frame)
next
  case (outp j)
  with w show ?thesis
    by (simp add: watcher_inv_def output_wlog output_frame)
next
  case (sign sig)
  with w show ?thesis
    by (simp add: watcher_inv_def signal_wlog signal_frame)
qed

lemma watcher_inv_run: "run E evs = Some s \<Longrightarrow> watcher_inv E s"
proof -
  assume r: "run E evs = Some s"
  have "base_inv s \<and> watcher_inv E s"
  proof (rule run_invariant [OF r])
    show "watcher_inv E init" by (simp add: watcher_inv_def wlog_def init_def)
  qed (rule watcher_inv_step)
  then show ?thesis ..
qed


lemma quiet_inv_step:
  assumes q: "quiet_inv s" and ns: "\<not> is_Signal ev" and st: "step E ev s = Some s'"
  shows "quiet_inv s'"
  using st
proof (cases rule: step_cases)
  case main
  with q main_frame [OF main(3)] show ?thesis by (simp add: quiet_inv_def)
next
  case watcher
  with q show ?thesis
    by (cases "wpc s") (simp_all add: quiet_inv_def abortOnSignal_step_def)
next
  case inp
  with q show ?thesis by (simp add: quiet_inv_def input_frame)
next
  case (outp j)
  with q show ?thesis by (simp add: quiet_inv_def output_frame)
next
  case (sign sig)
  with ns show ?thesis by simp
qed

lemma quiet_inv_run:
  assumes "run E evs = Some s" and "\<forall>ev \<in> set evs. \<not> is_Signal ev"
  shows "quiet_inv s"
proof (rule run_from_invariant [where P = quiet_inv and evs = evs and E = E])
  show "run_from E evs init = Some s" using assms(1) by (simp add: run_def)
  show "quiet_inv init" by (simp add: quiet_inv_def init_def)
next
  fix ev s s'
  assume "ev \<in> set evs" "quiet_inv s" "step E ev s = Some s'"
  with assms(2) show "quiet_inv s'" using quiet_inv_step by blast
qed

text \<open>
  Claim C8, as amended. A run that the watcher ends (line 150, announced at line 149) exits
  with the fixed code 2, which is not 0. The code is not set apart from the codes of the
  task: a run whose consumer returns 2 exits with code 2 on the main path.
\<close>

theorem forced_exit_code:
  assumes "run E evs = Some s" and "forced s"
  shows "proc s = Exited 2 \<and> proc s \<noteq> Exited 0 \<and> wpc s = W_Exited \<and> mpc s \<noteq> M_Exited"
proof -
  from watcher_inv_run [OF assms(1)] assms(2) have w: "wpc s = W_Exited"
    by (simp add: watcher_inv_def forced_wlog)
  from exit_inv_run [OF assms(1)] w show ?thesis
    by (cases "proc s") (simp_all add: exit_inv_def)
qed

theorem forced_exit_code_witness:
  "\<exists>s. run env_exit2 sched_forced = Some s \<and> forced s \<and> proc s = Exited 2 \<and> mpc s \<noteq> M_Exited"
proof -
  have "map_option forced (run env_exit2 sched_forced) = Some True" by code_simp
  then obtain s where r: "run env_exit2 sched_forced = Some s" and f: "forced s" by auto
  from forced_exit_code [OF r f] r f show ?thesis by auto
qed

text \<open>
  Claim C8 as stated fails: the consumer reports the task-level code 2 and the process
  exits with it on the main path, with no signal; a forced exit has the same code.
\<close>

theorem forced_exit_code_counterexample:
  "task_level_code (Render env_exit2) \<and>
   map_option proc (run env_exit2 sched_plain) = Some (Exited (Render env_exit2)) \<and>
   map_option forced (run env_exit2 sched_plain) = Some False \<and>
   map_option forced (run env_exit2 sched_forced) = Some True \<and>
   map_option proc (run env_exit2 sched_forced) = Some (Exited (Render env_exit2))"
  by code_simp

lemma run_append: "run E evs = Some s \<Longrightarrow> run E (evs @ evs') = run_from E evs' s"
  by (simp add: run_def run_from_append)

lemma signal_delivered:
  assumes "notified s" and "proc s = Running"
  obtains s1 where "step E (Signal sig) s = Some s1" "proc s1 = Running" "terminate s1 \<noteq> []"
    "wpc s1 = wpc s"
  using assms by (auto simp: step_def signal_step_def)

lemma watcher_exits:
  assumes "proc s = Running" and "terminate s \<noteq> []" and "AbortBuild E = None"
    and "wpc s = W_Abort \<or> wpc s = W_InFlight \<or> wpc s = W_Wait2"
  shows "map_option proc (run_from E (replicate (watcher_steps_left (wpc s)) WatcherStep) s)
    = Some (Exited 2)"
proof -
  from assms(2) obtain sig rest where t: "terminate s = sig # rest" by (cases "terminate s") auto
  from assms(4) show ?thesis
  proof (elim disjE)
    assume "wpc s = W_Abort"
    with assms(1,3) t show ?thesis
      by (simp add: eval_nat_numeral step_def abortOnSignal_step_def)
  next
    assume "wpc s = W_InFlight"
    with assms(1,3) t show ?thesis
      by (simp add: eval_nat_numeral step_def abortOnSignal_step_def)
  next
    assume "wpc s = W_Wait2"
    with assms(1,3) t show ?thesis
      by (simp add: step_def abortOnSignal_step_def)
  qed
qed

text \<open>
  Claim C1, as amended. In every run in which the watcher has received a first signal, the
  abort call succeeds and the process still runs: once a second signal is delivered, the
  steps the watcher has left (at most three: issue the abort call, take its result, receive
  the signal) end the process with exit code 2, with no step of the main path or of a
  transfer goroutine in between.
\<close>

theorem second_signal_exits:
  assumes "run E evs = Some s" and "AbortBuild E = None" and "A_Stderr_aborting \<in> set (log s)"
    and "proc s = Running"
  shows "map_option proc
      (run E (evs @ Signal sig # replicate (watcher_steps_left (wpc s)) WatcherStep))
    = Some (Exited 2) \<and>
    watcher_steps_left (wpc s) \<le> 3"
proof -
  from watcher_inv_run [OF assms(1)] assms(3)
  have rc: "received (wpc s)" and n: "notified s" and ar: "abort_result E (wlog s) (wpc s)"
    by (simp_all add: watcher_inv_def wlog_def)
  from exit_inv_run [OF assms(1)] assms(4) have ne: "wpc s \<noteq> W_Exited"
    by (simp add: exit_inv_def)
  from rc ar ne assms(2) have w: "wpc s = W_Abort \<or> wpc s = W_InFlight \<or> wpc s = W_Wait2"
    by (cases "wpc s") simp_all
  obtain s1 where s1: "step E (Signal sig) s = Some s1" "proc s1 = Running"
    "terminate s1 \<noteq> []" "wpc s1 = wpc s"
    using signal_delivered [OF n assms(4)] by blast
  from w s1(4) have w1: "wpc s1 = W_Abort \<or> wpc s1 = W_InFlight \<or> wpc s1 = W_Wait2" by simp
  from watcher_exits [OF s1(2,3) assms(2) w1] s1(1,4)
  have "map_option proc
      (run E (evs @ Signal sig # replicate (watcher_steps_left (wpc s)) WatcherStep))
    = Some (Exited 2)"
    by (simp add: run_append [OF assms(1)])
  moreover from w have "watcher_steps_left (wpc s) \<le> 3" by auto
  ultimately show ?thesis by simp
qed

theorem second_signal_exits_witness:
  "AbortBuild env_ok = None \<and>
   (\<exists>s. run env_ok sched_first_signal = Some s \<and> A_Stderr_aborting \<in> set (log s) \<and>
      proc s = Running \<and> wpc s = W_Abort \<and>
      map_option proc
        (run env_ok (sched_first_signal @ [Signal SIGTERM, WatcherStep, WatcherStep, WatcherStep]))
      = Some (Exited 2))"
proof -
  have a: "AbortBuild env_ok = None" by (simp add: env_ok_def)
  have "map_option (\<lambda>s. (wpc s, proc s, A_Stderr_aborting \<in> set (log s)))
      (run env_ok sched_first_signal) = Some (W_Abort, Running, True)"
    by code_simp
  then obtain s where r: "run env_ok sched_first_signal = Some s" and w: "wpc s = W_Abort"
    and p: "proc s = Running" and l: "A_Stderr_aborting \<in> set (log s)"
    by auto
  from second_signal_exits [OF r a l p, of SIGTERM] w a r p l show ?thesis
    by (simp add: eval_nat_numeral)
qed

text \<open>
  Claim C1 as stated fails. When the abort call fails the watcher returns (line 144): the
  second signal stays in the buffer of \<^verbatim>\<open>terminate\<close>, and the run ends on the main path
  with the code of the task, here 0. And a second signal that arrives while the abort call
  is in flight waits in the buffer: the process is still running.
\<close>

theorem second_signal_exits_counterexample:
  "map_option proc (run env_abort_fails sched_abort_fails) = Some (Exited 0) \<and>
   map_option forced (run env_abort_fails sched_abort_fails) = Some False \<and>
   map_option wpc (run env_abort_fails sched_abort_fails) = Some W_Returned \<and>
   map_option terminate (run env_abort_fails sched_abort_fails) = Some [SIGINT] \<and>
   map_option wpc (run env_ok sched_in_flight) = Some W_InFlight \<and>
   map_option terminate (run env_ok sched_in_flight) = Some [SIGTERM] \<and>
   map_option proc (run env_ok sched_in_flight) = Some Running"
  by code_simp

lemma view_eq:
  "(view s = view t) =
     (mpc t = mpc s \<and> ipc t = ipc s \<and> otasks t = otasks s \<and> inputs t = inputs s \<and>
      outputs t = outputs s \<and> build_ID t = build_ID s \<and> notified t = notified s \<and>
      inputChan t = inputChan s \<and> outputChans t = outputChans s \<and> exitCode t = exitCode s \<and>
      filter (\<lambda>a. \<not> watcher_action a) (log t) = filter (\<lambda>a. \<not> watcher_action a) (log s) \<and>
      proc t = proc s)"
  by (auto simp: view_def)

lemma sim_Execute:
  assumes "view s = view t"
  shows "map_option view (Execute_step E t) = map_option view (Execute_step E s)"
  using assms unfolding view_eq
  by (cases "mpc s")
    (simp_all add: Execute_step_def view_def split: option.splits sum.splits)

lemma sim_input:
  assumes "view s = view t"
  shows "map_option view (input_step E t) = map_option view (input_step E s)"
  using assms unfolding view_eq
  by (cases "ipc s") (simp_all add: input_step_def view_def)

lemma sim_output:
  assumes "view s = view t"
  shows "map_option view (output_step E j t) = map_option view (output_step E j s)"
  using assms unfolding view_eq
  by (cases "otasks s ! j"; cases "snd (otasks s ! j)")
    (simp_all add: output_step_def view_def)

lemma sim_other:
  assumes "\<not> watcher_event ev" and "view s = view t"
  shows "map_option view (step E ev t) = map_option view (step E ev s)"
proof -
  from assms(2) have p: "proc t = proc s" by (simp add: view_eq)
  show ?thesis
  proof (cases ev)
    case MainStep
    with p sim_Execute [OF assms(2), of E] show ?thesis by (simp add: step_def)
  next
    case WatcherStep
    with assms(1) show ?thesis by simp
  next
    case InputStep
    with p sim_input [OF assms(2), of E] show ?thesis by (simp add: step_def)
  next
    case (OutputStep j)
    with p sim_output [OF assms(2), of E j] show ?thesis by (simp add: step_def)
  next
    case (Signal sig)
    with assms(1) show ?thesis by simp
  qed
qed

lemma sim_watcher:
  assumes "watcher_event ev" and "AbortBuild E = Some e" and "watcher_inv E s"
    and "step E ev s = Some s'"
  shows "view s' = view s"
  using assms(4)
proof (cases rule: step_cases)
  case watcher
  from assms(2,3) watcher(3)
  have "filter (\<lambda>a. \<not> watcher_action a) (log s') = filter (\<lambda>a. \<not> watcher_action a) (log s)
      \<and> proc s' = proc s"
    by (cases "wpc s")
      (auto simp: abortOnSignal_step_def watcher_inv_def split: list.splits)
  with watcher_frame [OF watcher(3)] show ?thesis by (simp add: view_eq)
next
  case (sign sig)
  with signal_frame [OF sign(3)] show ?thesis by (simp add: view_eq)
qed (use assms(1) in simp_all)

lemma sim_run:
  assumes ab: "AbortBuild E = Some e"
  shows "base_inv s \<Longrightarrow> watcher_inv E s \<Longrightarrow> view s = view t \<Longrightarrow> run_from E evs s = Some s' \<Longrightarrow>
    map_option view (run_from E (filter (\<lambda>ev. \<not> watcher_event ev) evs) t) = Some (view s')"
proof (induction evs arbitrary: s t)
  case Nil
  then show ?case by simp
next
  case (Cons ev evs)
  from Cons.prems(4) obtain u where u: "step E ev s = Some u" and r: "run_from E evs u = Some s'"
    by (auto split: option.splits)
  from base_inv_step [OF Cons.prems(1) u] have bu: "base_inv u" .
  from watcher_inv_step [OF Cons.prems(1,2) u] have wu: "watcher_inv E u" .
  show ?case
  proof (cases "watcher_event ev")
    case True
    from sim_watcher [OF True ab Cons.prems(2) u] Cons.prems(3) have "view u = view t" by simp
    from Cons.IH [OF bu wu this r] True show ?thesis by simp
  next
    case False
    from sim_other [OF False Cons.prems(3), of E] u obtain t1
      where t1: "step E ev t = Some t1" and v: "view u = view t1" by auto
    from Cons.IH [OF bu wu v r] False t1 show ?thesis by simp
  qed
qed

text \<open>
  Claim C7. When the abort call fails, in every run: once the watcher has taken the result
  of the call, the failure is on the error stream; the watcher never reaches its second
  receive, so there is no forced exit, and an exit is the one of the main path with the
  code of \<^verbatim>\<open>Render\<close>; and everything but the watcher (main path, transfers, channels,
  exit) is what the same run gives with the signals and the watcher's steps left out.
\<close>

theorem abort_failure_not_fatal:
  assumes "run E evs = Some s" and "AbortBuild E = Some e"
  shows "(wpc s = W_Returned \<longrightarrow> A_Stderr_failed_to_abort e \<in> set (log s)) \<and>
    wpc s \<noteq> W_Wait2 \<and> wpc s \<noteq> W_Exited \<and> \<not> forced s \<and>
    (\<forall>c. proc s = Exited c \<longrightarrow> mpc s = M_Exited \<and> c = Render E) \<and>
    map_option view (run E (filter (\<lambda>ev. \<not> watcher_event ev) evs)) = Some (view s)"
proof -
  from watcher_inv_run [OF assms(1)] have w: "watcher_inv E s" .
  from w assms(2) have rep: "wpc s = W_Returned \<longrightarrow> A_Stderr_failed_to_abort e \<in> set (log s)"
    by (auto simp: watcher_inv_def wlog_def)
  from w assms(2) have ne: "wpc s \<noteq> W_Wait2" "wpc s \<noteq> W_Exited"
    by (auto simp: watcher_inv_def)
  from w ne have nf: "\<not> forced s" by (simp add: watcher_inv_def forced_wlog)
  from exit_inv_run [OF assms(1)] ne
  have ex: "\<forall>c. proc s = Exited c \<longrightarrow> mpc s = M_Exited \<and> c = Render E"
    by (auto simp: exit_inv_def)
  have "base_inv init" by (simp add: base_inv_def spawn_inv_init chan_inv_init)
  moreover have "watcher_inv E init" by (simp add: watcher_inv_def wlog_def init_def)
  moreover have "run_from E evs init = Some s" using assms(1) by (simp add: run_def)
  ultimately have "map_option view (run_from E (filter (\<lambda>ev. \<not> watcher_event ev) evs) init)
      = Some (view s)"
    using sim_run [OF assms(2), of init init evs s] by simp
  with rep ne nf ex show ?thesis by (simp add: run_def)
qed

theorem abort_failure_not_fatal_witness:
  "AbortBuild env_abort_fails = Some (Error ''connection refused'') \<and>
   (\<exists>s. run env_abort_fails sched_abort_fails = Some s \<and> wpc s = W_Returned \<and>
      proc s = Exited 0 \<and> Render env_abort_fails = 0 \<and> mpc s = M_Exited \<and> \<not> forced s \<and>
      A_Stderr_failed_to_abort (Error ''connection refused'') \<in> set (log s) \<and>
      map_option view (run env_abort_fails (filter (\<lambda>ev. \<not> watcher_event ev) sched_abort_fails))
        = Some (view s))"
proof -
  have a: "AbortBuild env_abort_fails = Some (Error ''connection refused'')"
    by (simp add: env_abort_fails_def env_ok_def)
  have "map_option (\<lambda>s. (wpc s, proc s)) (run env_abort_fails sched_abort_fails)
      = Some (W_Returned, Exited 0)"
    by code_simp
  then obtain s where r: "run env_abort_fails sched_abort_fails = Some s"
    and w: "wpc s = W_Returned" and p: "proc s = Exited 0"
    by auto
  from abort_failure_not_fatal [OF r a] r w p a show ?thesis by auto
qed

lemma main_log:
  assumes "Execute_step E s = Some s'"
  shows "opened (mpc s') \<or> (filter stream_action (log s') = filter stream_action (log s) \<and> \<not> opened (mpc s))"
  using assms
  by (cases "mpc s")
    (auto simp: Execute_step_def split: option.splits sum.splits if_splits)

lemma slog_frame:
  "abortOnSignal_step E s = Some s' \<Longrightarrow> filter stream_action (log s') = filter stream_action (log s)"
  "input_step E s = Some s' \<Longrightarrow> filter stream_action (log s') = filter stream_action (log s)"
  "output_step E j s = Some s' \<Longrightarrow> filter stream_action (log s') = filter stream_action (log s)"
    apply (cases "wpc s"; auto simp: abortOnSignal_step_def split: option.splits list.splits)
   apply (cases "ipc s"; auto simp: input_step_def split: if_splits)
  apply (cases "otasks s ! j"; cases "snd (otasks s ! j)"; auto simp: output_step_def split: if_splits)
  done

lemma stream_inv_step: "stream_inv s \<Longrightarrow> step E ev s = Some s' \<Longrightarrow> stream_inv s'"
proof (erule step_cases)
  assume "stream_inv s" "Execute_step E s = Some s'"
  with main_log [of E s s'] show "stream_inv s'" by (auto simp: stream_inv_def)
qed (simp_all add: stream_inv_def slog_frame watcher_frame input_frame output_frame signal_frame)

lemma stream_inv_init: "stream_inv init"
  by (simp add: stream_inv_def init_def)

lemma stream_inv_run: "run E evs = Some s \<Longrightarrow> stream_inv s"
  unfolding run_def
  by (rule run_from_invariant [where P = stream_inv])
    (auto intro: stream_inv_init stream_inv_step)

lemma base_inv_init: "base_inv init"
  by (simp add: base_inv_def spawn_inv_init chan_inv_init)

lemma base_inv_run: "run E evs = Some s \<Longrightarrow> base_inv s"
  unfolding run_def
  by (rule run_from_invariant [where P = base_inv])
    (auto intro: base_inv_init base_inv_step)

lemma spawn_inv_run: "run E evs = Some s \<Longrightarrow> spawn_inv s"
  using base_inv_run by (simp add: base_inv_def)

lemma chan_inv_run: "run E evs = Some s \<Longrightarrow> chan_inv s"
  using base_inv_run by (simp add: base_inv_def)

lemma started_inv_step:
  assumes i: "started_inv s" and st: "step E ev s = Some s'"
  shows "started_inv s'"
  using st
proof (cases rule: step_cases)
  case main
  with i show ?thesis
    by (cases "mpc s")
      (auto simp: Execute_step_def started_inv_def split: option.splits sum.splits if_splits)
next
  case watcher
  with i show ?thesis
    by (cases "wpc s")
      (auto simp: started_inv_def abortOnSignal_step_def split: list.splits option.splits)
next
  case inp
  with i show ?thesis
    by (cases "ipc s") (auto simp: started_inv_def input_step_def split: if_splits)
next
  case (outp j)
  with i show ?thesis by (simp add: started_inv_def output_frame)
next
  case (sign sig)
  with i show ?thesis by (simp add: started_inv_def signal_frame)
qed

lemma started_inv_init: "started_inv init"
  by (simp add: started_inv_def init_def)

lemma started_inv_run: "run E evs = Some s \<Longrightarrow> started_inv s"
  unfolding run_def
  by (rule run_from_invariant [where P = started_inv])
    (auto intro: started_inv_init started_inv_step)

lemma path_inv_run: "run E evs = Some s \<Longrightarrow> path_inv E s"
  unfolding run_def
  by (rule run_from_invariant [where P = "path_inv E"])
    (auto intro: path_inv_init path_inv_step)

text \<open>
  Claim C10. When the calls before it succeed and \<^verbatim>\<open>BuildEvents\<close> fails, in every run: the
  main path never passes line 114, so no feed is opened, rendered or closed and no completion
  signal is received; at line 111 the watcher and all transfer goroutines have been started,
  and the next step of the main path returns the error; an error returned is this one; and
  an exit of the process is not the one of line 127 but the forced one of the watcher.
\<close>

theorem feed_error_returned:
  assumes "run E evs = Some s" and "first_error E = None" and "BuildEvents E = Some e"
  shows "\<not> opened (mpc s) \<and> filter stream_action (log s) = [] \<and>
    (\<forall>e'. mpc s = M_Returned e' \<longrightarrow> e' = e) \<and>
    (\<forall>c. proc s = Exited c \<longrightarrow> forced s \<and> c = 2 \<and> mpc s \<noteq> M_Exited) \<and>
    (mpc s = M_BuildEvents \<and> proc s = Running \<longrightarrow>
       wpc s \<noteq> W_NotStarted \<and> ipc s \<noteq> I_NotStarted \<and> length (otasks s) = length (outputs s) \<and>
       step E MainStep s = Some (s\<lparr>mpc := M_Returned e\<rparr>))"
proof -
  from path_inv_run [OF assms(1)] assms(2,3) have no: "\<not> opened (mpc s)"
    by (cases "mpc s") (simp_all add: path_inv_def)
  with stream_inv_run [OF assms(1)] have sl: "filter stream_action (log s) = []"
    by (simp add: stream_inv_def)
  from path_inv_run [OF assms(1)] assms(2,3) have er: "\<forall>e'. mpc s = M_Returned e' \<longrightarrow> e' = e"
    by (auto simp: path_inv_def)
  from no have nx: "mpc s \<noteq> M_Exited" by auto
  have ex: "\<forall>c. proc s = Exited c \<longrightarrow> forced s \<and> c = 2 \<and> mpc s \<noteq> M_Exited"
  proof (intro allI impI)
    fix c assume c: "proc s = Exited c"
    with exit_inv_run [OF assms(1)] nx have "wpc s = W_Exited \<and> c = 2"
      by (simp add: exit_inv_def split: if_splits)
    with watcher_inv_run [OF assms(1)] nx show "forced s \<and> c = 2 \<and> mpc s \<noteq> M_Exited"
      by (simp add: watcher_inv_def forced_wlog)
  qed
  have at: "wpc s \<noteq> W_NotStarted \<and> ipc s \<noteq> I_NotStarted \<and>
      length (otasks s) = length (outputs s) \<and>
      step E MainStep s = Some (s\<lparr>mpc := M_Returned e\<rparr>)"
    if "mpc s = M_BuildEvents" "proc s = Running"
    using that started_inv_run [OF assms(1)] spawn_inv_run [OF assms(1)] assms(3)
    by (simp add: started_inv_def spawn_inv_def step_def Execute_step_def)
  from no sl er ex at show ?thesis by blast
qed

theorem feed_error_returned_witness:
  "first_error env_feed_fails = None \<and>
   BuildEvents env_feed_fails = Some (Error ''not authorized'') \<and>
   (\<exists>s. run env_feed_fails sched_before_feed = Some s \<and>
      mpc s = M_BuildEvents \<and> proc s = Running \<and> filter stream_action (log s) = [] \<and>
      wpc s \<noteq> W_NotStarted \<and> ipc s \<noteq> I_NotStarted \<and> length (otasks s) = length (outputs s) \<and>
      step env_feed_fails MainStep s = Some (s\<lparr>mpc := M_Returned (Error ''not authorized'')\<rparr>)) \<and>
   map_option mpc (run env_feed_fails sched_feed_fails)
     = Some (M_Returned (Error ''not authorized''))"
proof -
  have fe: "first_error env_feed_fails = None"
    by (simp add: first_error_def env_feed_fails_def env_ok_def)
  have be: "BuildEvents env_feed_fails = Some (Error ''not authorized'')"
    by (simp add: env_feed_fails_def env_ok_def)
  have "map_option (\<lambda>s. (mpc s, proc s)) (run env_feed_fails sched_before_feed)
      = Some (M_BuildEvents, Running)"
    by code_simp
  then obtain s where r: "run env_feed_fails sched_before_feed = Some s"
    and m: "mpc s = M_BuildEvents" and p: "proc s = Running"
    by auto
  have "map_option mpc (run env_feed_fails sched_feed_fails)
      = Some (M_Returned (Error ''not authorized''))"
    by code_simp
  with feed_error_returned [OF r fe be] r m p fe be show ?thesis by auto
qed

lemma olog_frame:
  "abortOnSignal_step E s = Some s' \<Longrightarrow> filter output_action (log s') = filter output_action (log s)"
  "input_step E s = Some s' \<Longrightarrow> filter output_action (log s') = filter output_action (log s)"
   apply (cases "wpc s"; auto simp: abortOnSignal_step_def split: option.splits list.splits)
  apply (cases "ipc s"; auto simp: input_step_def split: if_splits)
  done

lemma no_output_inv_step:
  assumes d: "DetermineOutputs E = Inr []" and b: "base_inv s" and n: "no_output_inv s"
    and st: "step E ev s = Some s'"
  shows "no_output_inv s'"
  using st
proof (cases rule: step_cases)
  case main
  with d n show ?thesis
    by (cases "mpc s")
      (auto simp: Execute_step_def no_output_inv_def split: option.splits sum.splits if_splits)
next
  case watcher
  with n show ?thesis by (simp add: no_output_inv_def olog_frame watcher_frame)
next
  case inp
  with n show ?thesis by (simp add: no_output_inv_def olog_frame input_frame)
next
  case (outp j)
  from b n have "otasks s = []" by (simp add: base_inv_def spawn_inv_def no_output_inv_def)
  with outp show ?thesis by (simp add: output_step_def)
next
  case (sign sig)
  with n show ?thesis by (simp add: no_output_inv_def signal_frame)
qed

text \<open>
  Claim C6. When no output is declared, in every run: no output goroutine and no output
  channel exists, so no step of an output goroutine is possible and nothing is downloaded;
  the main path never enters the loops of lines 99 and 122; and from the receive of line
  119, once the inputs have signalled, its next step goes straight to the exit of line 127.
\<close>

theorem no_outputs_no_wait:
  assumes "run E evs = Some s" and "DetermineOutputs E = Inr []"
  shows "otasks s = [] \<and> outputChans s = [] \<and> filter output_action (log s) = [] \<and>
    \<not> at_outputs (mpc s) \<and> (\<forall>j. step E (OutputStep j) s = None) \<and>
    (mpc s = M_WaitInput \<and> inputChan s \<and> proc s = Running \<longrightarrow>
       step E MainStep s = Some (s\<lparr>mpc := M_Exit, log := log s @ [A_RecvInput]\<rparr>))"
proof -
  have bn: "base_inv s \<and> no_output_inv s"
  proof (rule run_invariant [OF assms(1)])
    show "no_output_inv init" by (simp add: no_output_inv_def init_def)
  qed (rule no_output_inv_step [OF assms(2)])
  then have n: "outputs s = []" "\<not> at_outputs (mpc s)" "filter output_action (log s) = []"
    by (simp_all add: no_output_inv_def)
  from bn n(1) have o: "otasks s = []" "outputChans s = []"
    by (auto simp: base_inv_def spawn_inv_def)
  from o have st: "\<forall>j. step E (OutputStep j) s = None"
    by (simp add: step_def output_step_def)
  have "step E MainStep s = Some (s\<lparr>mpc := M_Exit, log := log s @ [A_RecvInput]\<rparr>)"
    if "mpc s = M_WaitInput" "inputChan s" "proc s = Running"
    using that n(1) by (simp add: step_def Execute_step_def)
  with n o st show ?thesis by blast
qed

theorem no_outputs_no_wait_witness:
  "DetermineOutputs env_no_outputs = Inr [] \<and>
   (\<exists>s. run env_no_outputs sched_to_join = Some s \<and>
      mpc s = M_WaitInput \<and> inputChan s \<and> proc s = Running \<and>
      otasks s = [] \<and> outputChans s = [] \<and> filter output_action (log s) = [] \<and>
      step env_no_outputs MainStep s = Some (s\<lparr>mpc := M_Exit, log := log s @ [A_RecvInput]\<rparr>)) \<and>
   map_option proc (run env_no_outputs (sched_to_join @ [MainStep, MainStep])) = Some (Exited 3)"
proof -
  have d: "DetermineOutputs env_no_outputs = Inr []"
    by (simp add: env_no_outputs_def env_ok_def)
  have "map_option (\<lambda>s. (mpc s, inputChan s, proc s)) (run env_no_outputs sched_to_join)
      = Some (M_WaitInput, True, Running)"
    by code_simp
  then obtain s where r: "run env_no_outputs sched_to_join = Some s"
    and m: "mpc s = M_WaitInput" and c: "inputChan s" and p: "proc s = Running"
    by auto
  have "map_option proc (run env_no_outputs (sched_to_join @ [MainStep, MainStep]))
      = Some (Exited 3)"
    by code_simp
  with no_outputs_no_wait [OF r d] r m c p d show ?thesis by auto
qed

lemma upload_seq_Nil: "upload_seq E [] = []"
  by (simp add: upload_seq_def)

lemma upload_seq_append: "upload_seq E (xs @ ys) = upload_seq E xs @ upload_seq E ys"
  by (simp add: upload_seq_def)

lemma upload_seq_snoc:
  "upload_seq E (xs @ [i]) =
     upload_seq E xs @ (if input_Path i \<noteq> '''' then [A_UploadBegin i, A_UploadEnd i (Upload E i)] else [])"
  by (simp add: upload_seq_def)

lemma upload_seq_take_Suc:
  "k < length ins \<Longrightarrow> upload_seq E (take (Suc k) ins) =
     upload_seq E (take k ins) @
       (if input_Path (ins ! k) \<noteq> '''' then [A_UploadBegin (ins ! k), A_UploadEnd (ins ! k) (Upload E (ins ! k))] else [])"
  by (simp add: take_Suc_conv_app_nth upload_seq_snoc)

lemma uploads_frame:
  "abortOnSignal_step E s = Some s' \<Longrightarrow> uploads s' = uploads s"
  "output_step E j s = Some s' \<Longrightarrow> uploads s' = uploads s"
  "signal_step sig s = Some s' \<Longrightarrow> uploads s' = uploads s"
    apply (cases "wpc s"; auto simp: uploads_def abortOnSignal_step_def split: option.splits list.splits)
   apply (cases "otasks s ! j"; cases "snd (otasks s ! j)"; auto simp: uploads_def output_step_def split: if_splits)
  apply (simp add: uploads_def signal_frame)
  done

lemma main_uploads:
  assumes "Execute_step E s = Some s'"
  shows "uploads s' = uploads s"
    "inputs s' = inputs s \<or> mpc s = M_DetermineInputs"
    "ipc s' = ipc s \<or> (mpc s = M_GoInputs \<and> ipc s' = I_Loop 0)"
  using assms
  by (cases "mpc s";
      auto simp: Execute_step_def uploads_def split: option.splits sum.splits if_splits)+

lemma upload_inv_step:
  assumes b: "base_inv s" and u: "upload_inv E s" and st: "step E ev s = Some s'"
  shows "upload_inv E s'"
  using st
proof (cases rule: step_cases)
  case main
  from b have ns: "unspawned (mpc s) \<longrightarrow> ipc s = I_NotStarted"
    by (simp add: base_inv_def spawn_inv_def)
  from main_uploads [OF main(3)] u ns show ?thesis
    by (auto simp: upload_inv_def upload_seq_Nil)
next
  case watcher
  with u show ?thesis by (simp add: upload_inv_def uploads_frame watcher_frame)
next
  case inp
  with u show ?thesis
    by (cases "ipc s")
      (auto simp: upload_inv_def uploads_def input_step_def upload_seq_take_Suc
        split: if_splits)
next
  case (outp j)
  with u show ?thesis by (simp add: upload_inv_def uploads_frame output_frame)
next
  case (sign sig)
  with u show ?thesis by (simp add: upload_inv_def uploads_frame signal_frame)
qed

lemma upload_inv_run: "run E evs = Some s \<Longrightarrow> upload_inv E s"
proof -
  assume r: "run E evs = Some s"
  have "base_inv s \<and> upload_inv E s"
  proof (rule run_invariant [OF r])
    show "upload_inv E init" by (simp add: upload_inv_def uploads_def init_def)
  qed (rule upload_inv_step)
  then show ?thesis ..
qed

lemma main_closes:
  assumes "Execute_step E s = Some s'"
  shows "input_closes s' = input_closes s" "output_closes j s' = output_closes j s"
  using assms
  by (cases "mpc s";
      auto simp: Execute_step_def input_closes_def output_closes_def
        split: option.splits sum.splits if_splits)+

lemma watcher_closes:
  assumes "abortOnSignal_step E s = Some s'"
  shows "input_closes s' = input_closes s" "output_closes j s' = output_closes j s"
  using assms
  by (cases "wpc s";
      auto simp: abortOnSignal_step_def input_closes_def output_closes_def
        split: option.splits list.splits)+

lemma input_closes_step:
  assumes "input_step E s = Some s'"
  shows "input_closes s' = (if ipc s' = I_Done then Suc (input_closes s) else input_closes s)"
    "ipc s \<noteq> I_Done" "output_closes j s' = output_closes j s"
  using assms
  by (cases "ipc s";
      auto simp: input_step_def input_closes_def output_closes_def split: if_splits)+

lemma output_closes_step:
  assumes "output_step E j s = Some s'"
  shows "input_closes s' = input_closes s"
    "output_closes i s' =
       (if i = j \<and> snd (otasks s' ! j) = O_Done then Suc (output_closes i s)
        else output_closes i s)"
    "snd (otasks s ! j) \<noteq> O_Done" "j < length (otasks s)"
    "i \<noteq> j \<Longrightarrow> otasks s' ! i = otasks s ! i"
  using assms
  by (cases "otasks s ! j"; cases "snd (otasks s ! j)";
      auto simp: output_step_def input_closes_def output_closes_def split: if_splits)+

lemma close_inv_step:
  assumes b: "base_inv s" and c: "close_inv s" and st: "step E ev s = Some s'"
  shows "close_inv s'"
  using st
proof (cases rule: step_cases)
  case main
  from b have ns: "unspawned (mpc s) \<longrightarrow> ipc s = I_NotStarted"
    by (simp add: base_inv_def spawn_inv_def)
  have i: "(ipc s' = I_Done) = (ipc s = I_Done)"
    using main_uploads(3) [OF main(3)] ns by auto
  have o: "(j < length (otasks s') \<and> snd (otasks s' ! j) = O_Done)
      = (j < length (otasks s) \<and> snd (otasks s ! j) = O_Done)" for j
    using main(3)
    by (cases "mpc s")
      (auto simp: Execute_step_def nth_append split: option.splits sum.splits if_splits)
  from c i o show ?thesis
    by (simp add: close_inv_def main_closes [OF main(3)])
next
  case watcher
  with c show ?thesis by (simp add: close_inv_def watcher_closes watcher_frame)
next
  case inp
  with c input_closes_step [OF inp(3)] show ?thesis
    by (simp add: close_inv_def input_frame)
next
  case (outp j)
  note oc = output_closes_step [OF outp(3)]
  have "output_closes i s' =
      (if i < length (otasks s') \<and> snd (otasks s' ! i) = O_Done then 1 else 0)" for i
  proof (cases "i = j")
    case True
    with c oc(2) [of i] oc(3,4) output_frame(12) [OF outp(3)] show ?thesis
      by (simp add: close_inv_def)
  next
    case False
    with c oc(2) [of i] oc(5) [of i] output_frame(12) [OF outp(3)] show ?thesis
      by (simp add: close_inv_def)
  qed
  with c oc(1) output_frame(3) [OF outp(3)] show ?thesis by (simp add: close_inv_def)
next
  case (sign sig)
  with c show ?thesis
    by (simp add: close_inv_def input_closes_def output_closes_def signal_frame)
qed

lemma close_inv_run: "run E evs = Some s \<Longrightarrow> close_inv s"
proof -
  assume r: "run E evs = Some s"
  have "base_inv s \<and> close_inv s"
  proof (rule run_invariant [OF r])
    show "close_inv init"
      by (simp add: close_inv_def input_closes_def output_closes_def init_def)
  qed (rule close_inv_step)
  then show ?thesis ..
qed

lemma join_order_snoc:
  "join_order (l @ [a]) =
     (if A_RecvInput \<in> set l then join_order l else join_order l \<and> \<not> is_RecvOutput a)"
proof (cases "A_RecvInput \<in> set l")
  case True
  then show ?thesis by (simp add: join_order_def takeWhile_append1)
next
  case False
  then have tw2: "takeWhile (\<lambda>a. a \<noteq> A_RecvInput) (l @ [a])
      = l @ takeWhile (\<lambda>a. a \<noteq> A_RecvInput) [a]"
    by (intro takeWhile_append2) auto
  from False have tw: "takeWhile (\<lambda>a. a \<noteq> A_RecvInput) l = l"
    by (intro takeWhile_eq_all_conv [THEN iffD2]) auto
  have "(filter is_RecvOutput (l @ takeWhile (\<lambda>a. a \<noteq> A_RecvInput) [a]) = [])
      = (filter is_RecvOutput l = [] \<and> \<not> is_RecvOutput a)"
    by (cases "a = A_RecvInput") auto
  with False show ?thesis unfolding join_order_def tw2 tw by simp
qed

lemma join_order_append_free:
  "list_all (\<lambda>a. a \<noteq> A_RecvInput \<and> \<not> is_RecvOutput a) as \<Longrightarrow> join_order (l @ as) = join_order l"
proof (induction as rule: rev_induct)
  case Nil
  then show ?case by simp
next
  case (snoc a as)
  then have "join_order ((l @ as) @ [a]) = join_order l"
    unfolding join_order_snoc by auto
  then show ?case by simp
qed

lemma join_inv_step:
  assumes j: "join_inv s" and st: "step E ev s = Some s'"
  shows "join_inv s'"
  using st
proof (cases rule: step_cases)
  case main
  with j show ?thesis
    by (cases "mpc s")
      (auto simp: Execute_step_def join_inv_def join_order_snoc
        split: option.splits sum.splits if_splits)
next
  case watcher
  with j show ?thesis
    by (cases "wpc s")
      (auto simp: abortOnSignal_step_def join_inv_def join_order_append_free
        split: option.splits list.splits)
next
  case inp
  with j show ?thesis
    by (cases "ipc s")
      (auto simp: input_step_def join_inv_def join_order_snoc split: if_splits)
next
  case (outp i)
  with j show ?thesis
    by (cases "otasks s ! i"; cases "snd (otasks s ! i)")
      (auto simp: output_step_def join_inv_def join_order_snoc split: if_splits)
next
  case (sign sig)
  with j show ?thesis by (simp add: join_inv_def signal_frame)
qed

lemma join_inv_init: "join_inv init"
  by (simp add: join_inv_def join_order_def init_def)

lemma join_inv_run: "run E evs = Some s \<Longrightarrow> join_inv s"
  unfolding run_def
  by (rule run_from_invariant [where P = join_inv])
    (auto intro: join_inv_step join_inv_init)

lemma list_all_take_update:
  "list_all id (take k cs) \<Longrightarrow> list_all id (take k (cs[j := True]))"
  by (auto simp: list_all_iff take_update_swap dest!: set_update_subset_insert [THEN subsetD])

lemma wait_inv_step:
  assumes b: "base_inv s" and w: "wait_inv s" and st: "step E ev s = Some s'"
  shows "wait_inv s'"
  using st
proof (cases rule: step_cases)
  case main
  from b have l: "streaming (mpc s) \<longrightarrow> length (outputChans s) = length (outputs s)"
    by (simp add: base_inv_def spawn_inv_def)
  with main w show ?thesis
    by (cases "mpc s")
      (auto simp: Execute_step_def wait_inv_def take_Suc_conv_app_nth
        split: option.splits sum.splits if_splits)
next
  case watcher
  with w show ?thesis by (simp add: wait_inv_def watcher_frame)
next
  case inp
  with w show ?thesis by (simp add: wait_inv_def input_frame)
next
  case (outp j)
  then have "outputChans s' = outputChans s \<or> outputChans s' = (outputChans s)[j := True]"
    by (cases "otasks s ! j"; cases "snd (otasks s ! j)")
      (auto simp: output_step_def split: if_splits)
  moreover have "waited (mpc s) ((outputChans s)[j := True])"
    using w list_all_take_update [of _ "outputChans s" j]
      list_all_take_update [of "length (outputChans s)" "outputChans s" j]
    by (cases "mpc s") (simp_all add: wait_inv_def)
  ultimately show ?thesis using w output_frame(1) [OF outp(3)] by (auto simp: wait_inv_def)
next
  case (sign sig)
  with w show ?thesis by (simp add: wait_inv_def signal_frame)
qed

lemma wait_inv_run: "run E evs = Some s \<Longrightarrow> wait_inv s"
proof -
  assume r: "run E evs = Some s"
  have "base_inv s \<and> wait_inv s"
  proof (rule run_invariant [OF r])
    show "wait_inv init" by (simp add: wait_inv_def init_def)
  qed (rule wait_inv_step)
  then show ?thesis ..
qed

lemma transfer_inv_step:
  assumes t: "transfer_inv s" and st: "step E ev s = Some s'"
  shows "transfer_inv s'"
  using st
proof (cases rule: step_cases)
  case main
  with t show ?thesis
    by (cases "mpc s")
      (auto simp: Execute_step_def transfer_inv_def split: option.splits sum.splits if_splits)
next
  case watcher
  with t show ?thesis
    by (cases "wpc s")
      (auto simp: abortOnSignal_step_def transfer_inv_def split: option.splits list.splits)
next
  case inp
  with t show ?thesis
    by (cases "ipc s") (auto simp: input_step_def transfer_inv_def split: if_splits)
next
  case (outp i)
  with t show ?thesis
    by (cases "otasks s ! i"; cases "snd (otasks s ! i)")
      (auto simp: output_step_def transfer_inv_def split: if_splits)
next
  case (sign sig)
  with t show ?thesis by (simp add: transfer_inv_def signal_frame)
qed

lemma transfer_inv_init: "transfer_inv init"
  by (simp add: transfer_inv_def init_def)

lemma transfer_inv_run: "run E evs = Some s \<Longrightarrow> transfer_inv s"
  unfolding run_def
  by (rule run_from_invariant [where P = transfer_inv])
    (auto intro: transfer_inv_step transfer_inv_init)

lemma upload_seq_prefix_take: "prefix (upload_seq E (take k ins)) (upload_seq E ins)"
proof -
  have "upload_seq E ins = upload_seq E (take k ins) @ upload_seq E (drop k ins)"
    by (simp add: upload_seq_append [symmetric])
  then show ?thesis by (metis prefixI)
qed

lemma upload_seq_prefix_begin:
  assumes "k < length ins" and "input_Path (ins ! k) \<noteq> ''''"
  shows "prefix (upload_seq E (take k ins) @ [A_UploadBegin (ins ! k)]) (upload_seq E ins)"
proof -
  have "prefix (upload_seq E (take (Suc k) ins)) (upload_seq E ins)"
    by (rule upload_seq_prefix_take)
  moreover have "prefix (upload_seq E (take k ins) @ [A_UploadBegin (ins ! k)])
      (upload_seq E (take (Suc k) ins))"
    using assms by (simp add: upload_seq_take_Suc)
  ultimately show ?thesis by (rule prefix_order.trans [rotated])
qed

lemma all_closed_at_exit:
  assumes "run E evs = Some s" and "mpc s = M_Exited"
  shows "input_closes s = 1 \<and> (\<forall>j < length (outputs s). output_closes j s = 1)"
proof -
  from join_inv_run [OF assms(1)] assms(2) have "inputChan s" by (simp add: join_inv_def)
  with chan_inv_run [OF assms(1)] have d: "ipc s = I_Done" by (simp add: chan_inv_def)
  with close_inv_run [OF assms(1)] have i: "input_closes s = 1" by (simp add: close_inv_def)
  from spawn_inv_run [OF assms(1)] assms(2) have l: "length (otasks s) = length (outputs s)"
    by (simp add: spawn_inv_def)
  from wait_inv_run [OF assms(1)] assms(2) have a: "list_all id (outputChans s)"
    by (simp add: wait_inv_def)
  from chan_inv_run [OF assms(1)]
  have m: "outputChans s = map (\<lambda>t. snd t = O_Done) (otasks s)"
    by (simp add: chan_inv_def)
  have "output_closes j s = 1" if "j < length (outputs s)" for j
  proof -
    from that l have jl: "j < length (otasks s)" by simp
    with a m have "snd (otasks s ! j) = O_Done"
      by (simp add: list_all_iff)
    with close_inv_run [OF assms(1)] jl show ?thesis by (simp add: close_inv_def)
  qed
  with i show ?thesis by simp
qed

lemma empty_output_fires:
  assumes "proc s = Running" and "j < length (otasks s)" and "otasks s ! j = (o', O_Start)"
    and "output_Path o' = ''''"
  shows "run_from E [OutputStep j, OutputStep j] s =
    Some (s\<lparr>otasks := (otasks s)[j := (o', O_Done)],
             outputChans := (outputChans s)[j := True],
             log := log s @ [A_CloseOutput j]\<rparr>)"
  using assms by (simp add: step_def output_step_def)

lemma phase_start:
  assumes "first_error E = None" and "DetermineInputs E = Inr ins" and "DetermineOutputs E = Inr outs"
  shows "\<exists>s. run E (replicate 10 MainStep) = Some s \<and> proc s = Running \<and>
    mpc s = (if outs = [] then M_BuildEvents else M_SpawnOutput 0) \<and> ipc s = I_Loop 0 \<and>
    inputs s = ins \<and> outputs s = outs \<and> otasks s = [] \<and> outputChans s = [] \<and> \<not> inputChan s"
proof -
  from assms obtain b where "TargetClient E = None" "ValidateClient E = None"
    "LoadTaskConfig E = None" "CreateBuild E = Inr b"
    by (auto simp: first_error_def split: option.splits sum.splits)
  with assms(2,3) show ?thesis
    by (simp add: run_def init_def step_def Execute_step_def eval_nat_numeral)
qed

lemma phase_spawn:
  assumes "proc s = Running" and "mpc s = M_SpawnOutput k" and "k \<le> length (outputs s)"
    and "length (otasks s) = k" and "length (outputChans s) = k"
    and "\<forall>j < k. otasks s ! j = (outputs s ! j, O_Start) \<and> \<not> outputChans s ! j"
  shows "\<exists>s'. run_from E (replicate (Suc (length (outputs s) - k)) MainStep) s = Some s' \<and>
    proc s' = Running \<and> mpc s' = M_BuildEvents \<and> ipc s' = ipc s \<and> inputs s' = inputs s \<and>
    outputs s' = outputs s \<and> inputChan s' = inputChan s \<and>
    length (otasks s') = length (outputs s) \<and> length (outputChans s') = length (outputs s) \<and>
    (\<forall>j < length (outputs s). otasks s' ! j = (outputs s ! j, O_Start) \<and> \<not> outputChans s' ! j)"
  using assms
proof (induction "length (outputs s) - k" arbitrary: s k)
  case 0
  then have "k = length (outputs s)" by simp
  with 0 show ?case by (simp add: step_def Execute_step_def)
next
  case (Suc d)
  then have kl: "k < length (outputs s)" by simp
  let ?t = "s\<lparr>mpc := M_SpawnOutput (Suc k), outputChans := outputChans s @ [False],
      otasks := otasks s @ [(outputs s ! k, O_Start)]\<rparr>"
  from Suc.prems kl have st: "step E MainStep s = Some ?t" by (simp add: step_def Execute_step_def)
  have d: "d = length (outputs ?t) - Suc k" using Suc.hyps(2) by simp
  have "\<exists>s'. run_from E (replicate (Suc (length (outputs ?t) - Suc k)) MainStep) ?t = Some s' \<and>
    proc s' = Running \<and> mpc s' = M_BuildEvents \<and> ipc s' = ipc ?t \<and> inputs s' = inputs ?t \<and>
    outputs s' = outputs ?t \<and> inputChan s' = inputChan ?t \<and>
    length (otasks s') = length (outputs ?t) \<and> length (outputChans s') = length (outputs ?t) \<and>
    (\<forall>j < length (outputs ?t). otasks s' ! j = (outputs ?t ! j, O_Start) \<and> \<not> outputChans s' ! j)"
    using Suc.prems kl by (intro Suc.hyps(1) [OF d]) (auto simp: nth_append less_Suc_eq)
  moreover have "Suc (length (outputs s) - k) = Suc (Suc (length (outputs s) - Suc k))"
    using kl by simp
  ultimately show ?case using st by simp
qed

lemma phase_stream:
  assumes "proc s = Running" and "mpc s = M_BuildEvents" and "BuildEvents E = None"
  shows "run_from E (replicate 3 MainStep) s =
    Some (s\<lparr>mpc := M_WaitInput, exitCode := Render E,
             log := log s @ [A_BuildEvents (build_ID s), A_Render (Render E), A_CloseFeed]\<rparr>)"
  using assms by (simp add: step_def Execute_step_def eval_nat_numeral)

lemma phase_inputs:
  assumes "proc s = Running" and "ipc s = I_Loop k" and "k \<le> length (inputs s)"
  shows "run_from E (input_sched (drop k (inputs s))) s =
    Some (s\<lparr>ipc := I_Done, inputChan := True,
             log := log s @ upload_seq E (drop k (inputs s)) @ [A_CloseInput]\<rparr>)"
  using assms
proof (induction "length (inputs s) - k" arbitrary: s k)
  case 0
  then show ?case
    by (simp add: input_sched_def step_def input_step_def upload_seq_Nil)
next
  case (Suc d)
  then have kl: "k < length (inputs s)" by simp
  then have dr: "drop k (inputs s) = inputs s ! k # drop (Suc k) (inputs s)"
    by (simp add: Cons_nth_drop_Suc)
  have us: "upload_seq E (drop k (inputs s)) =
      (if input_Path (inputs s ! k) \<noteq> '''' then
         [A_UploadBegin (inputs s ! k), A_UploadEnd (inputs s ! k) (Upload E (inputs s ! k))]
       else []) @ upload_seq E (drop (Suc k) (inputs s))"
    unfolding dr by (simp add: upload_seq_def)
  have sc: "input_sched (drop k (inputs s)) =
      (if input_Path (inputs s ! k) \<noteq> '''' then [InputStep, InputStep] else [InputStep])
        @ input_sched (drop (Suc k) (inputs s))"
    unfolding dr by (simp add: input_sched_def)
  show ?case
  proof (cases "input_Path (inputs s ! k) \<noteq> ''''")
    case True
    let ?t = "s\<lparr>ipc := I_Loop (Suc k),
        log := log s @ [A_UploadBegin (inputs s ! k),
          A_UploadEnd (inputs s ! k) (Upload E (inputs s ! k))]\<rparr>"
    have d: "d = length (inputs ?t) - Suc k" using Suc.hyps(2) by simp
    have "run_from E (input_sched (drop (Suc k) (inputs ?t))) ?t =
        Some (?t\<lparr>ipc := I_Done, inputChan := True,
          log := log ?t @ upload_seq E (drop (Suc k) (inputs ?t)) @ [A_CloseInput]\<rparr>)"
      using Suc.prems kl by (intro Suc.hyps(1) [OF d]) simp_all
    with True Suc.prems kl show ?thesis
      unfolding sc us by (simp add: step_def input_step_def)
  next
    case False
    let ?t = "s\<lparr>ipc := I_Loop (Suc k)\<rparr>"
    have d: "d = length (inputs ?t) - Suc k" using Suc.hyps(2) by simp
    have "run_from E (input_sched (drop (Suc k) (inputs ?t))) ?t =
        Some (?t\<lparr>ipc := I_Done, inputChan := True,
          log := log ?t @ upload_seq E (drop (Suc k) (inputs ?t)) @ [A_CloseInput]\<rparr>)"
      using Suc.prems kl by (intro Suc.hyps(1) [OF d]) simp_all
    with False Suc.prems kl show ?thesis
      unfolding sc us by (simp add: step_def input_step_def)
  qed
qed

lemma output_done:
  assumes "proc s = Running" and "k < length (otasks s)" and "otasks s ! k = (o', O_Start)"
  shows "\<exists>t. run_from E (if output_Path o' \<noteq> '''' then [OutputStep k, OutputStep k, OutputStep k]
        else [OutputStep k, OutputStep k]) s = Some t \<and>
    otasks t = (otasks s)[k := (o', O_Done)] \<and> outputChans t = (outputChans s)[k := True] \<and>
    proc t = Running \<and> mpc t = mpc s \<and> ipc t = ipc s \<and> inputChan t = inputChan s \<and>
    inputs t = inputs s \<and> outputs t = outputs s \<and> exitCode t = exitCode s"
  using assms by (simp add: step_def output_step_def)

lemma phase_outputs:
  assumes "proc s = Running" and "k \<le> length (outputs s)"
    and "length (otasks s) = length (outputs s)" and "length (outputChans s) = length (outputs s)"
    and "\<forall>j < length (outputs s). j \<ge> k \<longrightarrow> otasks s ! j = (outputs s ! j, O_Start)"
    and "\<forall>j < k. outputChans s ! j"
  shows "\<exists>s'. run_from E (output_sched k (drop k (outputs s))) s = Some s' \<and>
    proc s' = Running \<and> mpc s' = mpc s \<and> ipc s' = ipc s \<and> inputChan s' = inputChan s \<and>
    inputs s' = inputs s \<and> outputs s' = outputs s \<and> exitCode s' = exitCode s \<and>
    length (outputChans s') = length (outputs s) \<and>
    (\<forall>j < length (outputs s). outputChans s' ! j)"
  using assms
proof (induction "length (outputs s) - k" arbitrary: s k)
  case 0
  then show ?case by simp
next
  case (Suc d)
  then have kl: "k < length (outputs s)" by simp
  then have dr: "drop k (outputs s) = outputs s ! k # drop (Suc k) (outputs s)"
    by (simp add: Cons_nth_drop_Suc)
  let ?o = "outputs s ! k"
  let ?one = "if output_Path ?o \<noteq> '''' then [OutputStep k, OutputStep k, OutputStep k]
      else [OutputStep k, OutputStep k]"
  from Suc.prems kl have ok: "otasks s ! k = (?o, O_Start)" "k < length (otasks s)" by simp_all
  from output_done [OF Suc.prems(1) ok(2) ok(1), of E] obtain t
    where t: "run_from E ?one s = Some t" "otasks t = (otasks s)[k := (?o, O_Done)]"
      "outputChans t = (outputChans s)[k := True]" "proc t = Running" "mpc t = mpc s"
      "ipc t = ipc s" "inputChan t = inputChan s" "inputs t = inputs s" "outputs t = outputs s"
      "exitCode t = exitCode s"
    by blast
  have d: "d = length (outputs t) - Suc k" using Suc.hyps(2) t(9) by simp
  have "\<exists>s'. run_from E (output_sched (Suc k) (drop (Suc k) (outputs t))) t = Some s' \<and>
    proc s' = Running \<and> mpc s' = mpc t \<and> ipc s' = ipc t \<and> inputChan s' = inputChan t \<and>
    inputs s' = inputs t \<and> outputs s' = outputs t \<and> exitCode s' = exitCode t \<and>
    length (outputChans s') = length (outputs t) \<and>
    (\<forall>j < length (outputs t). outputChans s' ! j)"
    using Suc.prems kl t
    by (intro Suc.hyps(1) [OF d]) (auto simp: nth_list_update less_Suc_eq)
  then obtain s' where s': "run_from E (output_sched (Suc k) (drop (Suc k) (outputs s))) t = Some s'"
    "proc s' = Running" "mpc s' = mpc s" "ipc s' = ipc s" "inputChan s' = inputChan s"
    "inputs s' = inputs s" "outputs s' = outputs s" "exitCode s' = exitCode s"
    "length (outputChans s') = length (outputs s)" "\<forall>j < length (outputs s). outputChans s' ! j"
    using t by auto
  have "output_sched k (drop k (outputs s)) = ?one @ output_sched (Suc k) (drop (Suc k) (outputs s))"
    unfolding dr by simp
  then have "run_from E (output_sched k (drop k (outputs s))) s = Some s'"
    using t(1) s'(1) by (simp add: run_from_append)
  with s' show ?case by blast
qed

lemma phase_wait:
  assumes "proc s = Running" and "mpc s = M_WaitOutput k" and "k \<le> length (outputChans s)"
    and "\<forall>j < length (outputChans s). outputChans s ! j"
  shows "\<exists>s'. run_from E (replicate (Suc (length (outputChans s) - k)) MainStep) s = Some s' \<and>
    proc s' = Running \<and> mpc s' = M_Exit \<and> exitCode s' = exitCode s"
  using assms
proof (induction "length (outputChans s) - k" arbitrary: s k)
  case 0
  then show ?case by (simp add: step_def Execute_step_def)
next
  case (Suc d)
  then have kl: "k < length (outputChans s)" by simp
  let ?t = "s\<lparr>mpc := M_WaitOutput (Suc k), log := log s @ [A_RecvOutput k]\<rparr>"
  from Suc.prems kl have st: "step E MainStep s = Some ?t" by (simp add: step_def Execute_step_def)
  have d: "d = length (outputChans ?t) - Suc k" using Suc.hyps(2) by simp
  have "\<exists>s'. run_from E (replicate (Suc (length (outputChans ?t) - Suc k)) MainStep) ?t = Some s' \<and>
    proc s' = Running \<and> mpc s' = M_Exit \<and> exitCode s' = exitCode ?t"
    using Suc.prems kl by (intro Suc.hyps(1) [OF d]) simp_all
  moreover have "Suc (length (outputChans s) - k) = Suc (Suc (length (outputChans s) - Suc k))"
    using kl by simp
  ultimately show ?case using st by simp
qed

lemma output_sched_no_signal: "filter is_Signal (output_sched k outs) = []"
  by (induction outs arbitrary: k) auto

lemma full_sched_no_signal: "filter is_Signal (full_sched ins outs) = []"
  by (auto simp: full_sched_def loop_sched_def input_sched_def output_sched_no_signal
      filter_concat)

lemma phase_loop_spawn:
  assumes "proc s = Running" and "mpc s = (if outputs s = [] then M_BuildEvents else M_SpawnOutput 0)"
    and "otasks s = []" and "outputChans s = []"
  shows "\<exists>s'. run_from E (loop_sched (outputs s)) s = Some s' \<and>
    proc s' = Running \<and> mpc s' = M_BuildEvents \<and> ipc s' = ipc s \<and> inputs s' = inputs s \<and>
    outputs s' = outputs s \<and> inputChan s' = inputChan s \<and>
    length (otasks s') = length (outputs s) \<and> length (outputChans s') = length (outputs s) \<and>
    (\<forall>j < length (outputs s). otasks s' ! j = (outputs s ! j, O_Start) \<and> \<not> outputChans s' ! j)"
proof (cases "outputs s = []")
  case True
  with assms show ?thesis by (simp add: loop_sched_def)
next
  case False
  with assms phase_spawn [of s 0 E] show ?thesis by (simp add: loop_sched_def)
qed

lemma phase_join:
  assumes "proc s = Running" and "mpc s = M_WaitInput" and "inputChan s"
    and "length (outputChans s) = length (outputs s)"
    and "\<forall>j < length (outputs s). outputChans s ! j"
  shows "map_option proc (run_from E ([MainStep] @ loop_sched (outputs s) @ [MainStep]) s)
    = Some (Exited (exitCode s))"
proof (cases "outputs s = []")
  case True
  with assms show ?thesis by (simp add: loop_sched_def step_def Execute_step_def)
next
  case False
  let ?t = "s\<lparr>mpc := M_WaitOutput 0, log := log s @ [A_RecvInput]\<rparr>"
  from False assms have st: "step E MainStep s = Some ?t"
    by (simp add: step_def Execute_step_def)
  from assms phase_wait [of ?t 0 E] obtain u
    where u: "run_from E (replicate (Suc (length (outputs s))) MainStep) ?t = Some u"
      "proc u = Running" "mpc u = M_Exit" "exitCode u = exitCode s"
    by auto
  from u(2,3,4) obtain z where z: "step E MainStep u = Some z" "proc z = Exited (exitCode s)"
    by (simp add: step_def Execute_step_def)
  from st u(1) z(1)
  have "run_from E ([MainStep] @ replicate (Suc (length (outputs s))) MainStep @ [MainStep]) s
      = Some z"
    by (simp add: run_from_append del: replicate.simps)
  with False z(2) show ?thesis by (simp add: loop_sched_def del: replicate.simps)
qed

text \<open>
  When every call succeeds, the exit of line 127 is reached, with the code that
  \<^verbatim>\<open>Render\<close> returned, by a run without a signal.
\<close>

lemma exit_reachable:
  assumes fe: "first_error E = None" and be: "BuildEvents E = None"
    and di: "DetermineInputs E = Inr ins" and ou: "DetermineOutputs E = Inr outs"
  shows "filter is_Signal (full_sched ins outs) = [] \<and>
    map_option proc (run E (full_sched ins outs)) = Some (Exited (Render E))"
proof -
  from phase_start [OF fe di ou] obtain s1
    where s1: "run E (replicate 10 MainStep) = Some s1" "proc s1 = Running"
      "mpc s1 = (if outs = [] then M_BuildEvents else M_SpawnOutput 0)" "ipc s1 = I_Loop 0"
      "inputs s1 = ins" "outputs s1 = outs" "otasks s1 = []" "outputChans s1 = []"
      "\<not> inputChan s1"
    by blast
  from phase_loop_spawn [of s1 E] s1 obtain s2
    where s2: "run_from E (loop_sched outs) s1 = Some s2" "proc s2 = Running"
      "mpc s2 = M_BuildEvents" "ipc s2 = I_Loop 0" "inputs s2 = ins" "outputs s2 = outs"
      "length (otasks s2) = length outs" "length (outputChans s2) = length outs"
      "\<forall>j < length outs. otasks s2 ! j = (outs ! j, O_Start) \<and> \<not> outputChans s2 ! j"
    by auto
  define s3 where "s3 = s2\<lparr>mpc := M_WaitInput, exitCode := Render E,
      log := log s2 @ [A_BuildEvents (build_ID s2), A_Render (Render E), A_CloseFeed]\<rparr>"
  have r3: "run_from E (replicate 3 MainStep) s2 = Some s3"
    unfolding s3_def by (rule phase_stream [OF s2(2,3) be])
  define s4 where "s4 = s3\<lparr>ipc := I_Done, inputChan := True,
      log := log s3 @ upload_seq E (drop 0 (inputs s3)) @ [A_CloseInput]\<rparr>"
  have "run_from E (input_sched (drop 0 (inputs s3))) s3 = Some s4"
    unfolding s4_def by (rule phase_inputs) (simp_all add: s3_def s2)
  then have r4: "run_from E (input_sched ins) s3 = Some s4" by (simp add: s3_def s2)
  have "\<exists>s'. run_from E (output_sched 0 (drop 0 (outputs s4))) s4 = Some s' \<and>
    proc s' = Running \<and> mpc s' = mpc s4 \<and> ipc s' = ipc s4 \<and> inputChan s' = inputChan s4 \<and>
    inputs s' = inputs s4 \<and> outputs s' = outputs s4 \<and> exitCode s' = exitCode s4 \<and>
    length (outputChans s') = length (outputs s4) \<and>
    (\<forall>j < length (outputs s4). outputChans s' ! j)"
    by (rule phase_outputs) (simp_all add: s4_def s3_def s2)
  then obtain s5 where s5: "run_from E (output_sched 0 outs) s4 = Some s5" "proc s5 = Running"
    "mpc s5 = M_WaitInput" "inputChan s5" "outputs s5 = outs" "exitCode s5 = Render E"
    "length (outputChans s5) = length outs" "\<forall>j < length outs. outputChans s5 ! j"
    by (auto simp: s4_def s3_def s2)
  from phase_join [of s5 E] s5
  have r6: "map_option proc (run_from E ([MainStep] @ loop_sched outs @ [MainStep]) s5)
      = Some (Exited (Render E))"
    by simp
  have "run E (replicate 10 MainStep @ loop_sched outs @ replicate 3 MainStep @ input_sched ins
      @ output_sched 0 outs) = Some s5"
    using s1(1) s2(1) r3 r4 s5(1) by (simp add: run_def run_from_append)
  then have "map_option proc (run E ((replicate 10 MainStep @ loop_sched outs @ replicate 3 MainStep
      @ input_sched ins @ output_sched 0 outs) @ [MainStep] @ loop_sched outs @ [MainStep]))
      = Some (Exited (Render E))"
    using r6 by (simp only: run_append)
  moreover have "full_sched ins outs =
      (replicate 10 MainStep @ loop_sched outs @ replicate 3 MainStep
        @ input_sched ins @ output_sched 0 outs) @ [MainStep] @ loop_sched outs @ [MainStep]"
    by (simp only: full_sched_def append_assoc)
  ultimately have "map_option proc (run E (full_sched ins outs)) = Some (Exited (Render E))"
    by (simp only:)
  with full_sched_no_signal [of ins outs] show ?thesis by (rule conjI)
qed

lemma inputs_inv_step:
  assumes i: "inputs_inv E s" and st: "step E ev s = Some s'"
  shows "inputs_inv E s'"
  using st
proof (cases rule: step_cases)
  case main
  with i show ?thesis
    by (cases "mpc s")
      (auto simp: Execute_step_def inputs_inv_def split: option.splits sum.splits if_splits)
next
  case watcher
  with i show ?thesis by (simp add: inputs_inv_def watcher_frame)
next
  case inp
  with i show ?thesis
    by (cases "ipc s") (auto simp: inputs_inv_def input_step_def split: if_splits)
next
  case (outp j)
  with i show ?thesis by (simp add: inputs_inv_def output_frame)
next
  case (sign sig)
  with i show ?thesis by (simp add: inputs_inv_def signal_frame)
qed

lemma inputs_inv_init: "inputs_inv E init"
  by (simp add: inputs_inv_def init_def)

lemma inputs_inv_run: "run E evs = Some s \<Longrightarrow> inputs_inv E s"
  unfolding run_def
  by (rule run_from_invariant [where P = "inputs_inv E"])
    (auto intro: inputs_inv_init inputs_inv_step)

lemma input_rest_runs:
  assumes "proc s = Running" and "upload_inv E s"
  shows "\<exists>s'. run_from E (input_rest s) s = Some s' \<and>
    ipc s' = (if ipc s = I_NotStarted then I_NotStarted else I_Done) \<and>
    mpc s' = mpc s \<and> proc s' = Running \<and> outputChans s' = outputChans s \<and> otasks s' = otasks s"
proof (cases "ipc s")
  case I_NotStarted
  with assms show ?thesis by (simp add: input_rest_def)
next
  case (I_Loop k)
  with assms(2) have "k \<le> length (inputs s)" by (simp add: upload_inv_def)
  from phase_inputs [OF assms(1) I_Loop this, of E] I_Loop assms(1) show ?thesis
    by (simp add: input_rest_def)
next
  case (I_Uploading k)
  with assms(2) have kl: "k < length (inputs s)" by (simp add: upload_inv_def)
  let ?t = "s\<lparr>ipc := I_Loop (Suc k),
      log := log s @ [A_UploadEnd (inputs s ! k) (Upload E (inputs s ! k))]\<rparr>"
  from I_Uploading assms(1) have st: "step E InputStep s = Some ?t"
    by (simp add: step_def input_step_def)
  have "run_from E (input_sched (drop (Suc k) (inputs ?t))) ?t =
      Some (?t\<lparr>ipc := I_Done, inputChan := True,
        log := log ?t @ upload_seq E (drop (Suc k) (inputs ?t)) @ [A_CloseInput]\<rparr>)"
    using assms(1) kl by (intro phase_inputs) simp_all
  with st I_Uploading assms(1) show ?thesis by (simp add: input_rest_def)
next
  case I_Done
  with assms show ?thesis by (simp add: input_rest_def)
qed

lemma input_goroutine_finishes:
  assumes r: "run E evs = Some s" and d: "DetermineInputs E = Inr ins"
    and p: "proc s = Running" and n: "ipc s \<noteq> I_NotStarted"
  shows "\<exists>s'. run E (evs @ input_rest s) = Some s' \<and> inputChan s' \<and>
    uploads s' = upload_seq E ins \<and> input_closes s' = 1 \<and> mpc s' = mpc s \<and> proc s' = Running \<and>
    outputChans s' = outputChans s \<and> otasks s' = otasks s"
proof -
  from input_rest_runs [OF p upload_inv_run [OF r]] n obtain s'
    where s': "run_from E (input_rest s) s = Some s'" "ipc s' = I_Done" "mpc s' = mpc s"
      "proc s' = Running" "outputChans s' = outputChans s" "otasks s' = otasks s"
    by auto
  from s'(1) have r': "run E (evs @ input_rest s) = Some s'" by (simp add: run_append [OF r])
  from inputs_inv_run [OF r'] s'(2) d have i: "inputs s' = ins" by (simp add: inputs_inv_def)
  from upload_inv_run [OF r'] s'(2) i have u: "uploads s' = upload_seq E ins"
    by (simp add: upload_inv_def)
  from close_inv_run [OF r'] s'(2) have c: "input_closes s' = 1" by (simp add: close_inv_def)
  from chan_inv_run [OF r'] s'(2) have "inputChan s'" by (simp add: chan_inv_def)
  with r' u c s' show ?thesis by simp
qed

lemma input_sched_only_input: "list_all (\<lambda>ev. ev = InputStep) (input_sched ins)"
  by (induction ins) (auto simp: input_sched_def)

lemma input_rest_only_input: "list_all (\<lambda>ev. ev = InputStep) (input_rest s)"
  by (cases "ipc s") (simp_all add: input_rest_def input_sched_only_input)

lemma join_steps:
  assumes "proc s = Running"
  shows "mpc s = M_WaitInput \<Longrightarrow> step E MainStep s =
      (if inputChan s
       then Some (s\<lparr>mpc := (if length (outputs s) > 0 then M_WaitOutput 0 else M_Exit),
                    log := log s @ [A_RecvInput]\<rparr>)
       else None)"
    and "mpc s = M_WaitOutput k \<Longrightarrow> k < length (outputChans s) \<Longrightarrow> step E MainStep s =
      (if outputChans s ! k
       then Some (s\<lparr>mpc := M_WaitOutput (Suc k), log := log s @ [A_RecvOutput k]\<rparr>)
       else None)"
  using assms by (simp_all add: step_def Execute_step_def)

text \<open>
  Claim C4. Let \<open>ins\<close> be the inputs that \<^verbatim>\<open>DetermineInputs\<close> returned. In every run the
  uploads begun and ended so far are an initial part of the sequence that uploads the inputs
  of \<open>ins\<close> with a path one after another, each upload ended before the next begins, in the
  order of \<open>ins\<close>; the one channel of the inputs is closed at most once, and when it is closed
  the sequence is complete. Once started, the input goroutine gets there by steps of its
  own: they complete the sequence and close the channel once. The main path receives from
  no output channel before it has received from the channel of the inputs: past line 119
  that channel is closed and the receive is logged, at line 119 the main path is blocked
  until the channel is closed, and at line 123 until the output channel at hand is closed.
\<close>

theorem uploads_in_order_then_join:
  assumes "run E evs = Some s" and "DetermineInputs E = Inr ins"
  shows "prefix (uploads s) (upload_seq E ins) \<and>
    input_closes s \<le> 1 \<and>
    (inputChan s \<longrightarrow> uploads s = upload_seq E ins \<and> input_closes s = 1) \<and>
    list_all (\<lambda>ev. ev = InputStep) (input_rest s) \<and>
    (proc s = Running \<and> ipc s \<noteq> I_NotStarted \<longrightarrow>
       (\<exists>s'. run E (evs @ input_rest s) = Some s' \<and> inputChan s' \<and>
          uploads s' = upload_seq E ins \<and> input_closes s' = 1)) \<and>
    join_order (log s) \<and>
    (joined (mpc s) \<longrightarrow> inputChan s \<and> A_RecvInput \<in> set (log s)) \<and>
    (proc s = Running \<and> mpc s = M_WaitInput \<longrightarrow>
       step E MainStep s =
         (if inputChan s
          then Some (s\<lparr>mpc := (if length (outputs s) > 0 then M_WaitOutput 0 else M_Exit),
                       log := log s @ [A_RecvInput]\<rparr>)
          else None)) \<and>
    (\<forall>k. proc s = Running \<and> mpc s = M_WaitOutput k \<and> k < length (outputChans s) \<longrightarrow>
       step E MainStep s =
         (if outputChans s ! k
          then Some (s\<lparr>mpc := M_WaitOutput (Suc k), log := log s @ [A_RecvOutput k]\<rparr>)
          else None))"
proof -
  from inputs_inv_run [OF assms(1)] assms(2)
  have i: "inputs s = ins \<or> (inputs s = [] \<and> ipc s = I_NotStarted)"
    by (auto simp: inputs_inv_def)
  from upload_inv_run [OF assms(1)] have u: "uploaded E (inputs s) (ipc s) (uploads s)"
    by (simp add: upload_inv_def)
  have p: "prefix (uploads s) (upload_seq E ins)"
  proof (cases "inputs s = ins")
    case True
    with u show ?thesis
      by (cases "ipc s") (auto simp: upload_seq_prefix_take upload_seq_prefix_begin)
  next
    case False
    with i u show ?thesis by simp
  qed
  from close_inv_run [OF assms(1)] have c: "input_closes s = (if ipc s = I_Done then 1 else 0)"
    by (simp add: close_inv_def)
  from chan_inv_run [OF assms(1)] have ch: "inputChan s = (ipc s = I_Done)"
    by (simp add: chan_inv_def)
  from u i ch have f: "inputChan s \<longrightarrow> uploads s = upload_seq E ins" by auto
  from join_inv_run [OF assms(1)] have j: "join_order (log s)"
    "joined (mpc s) \<longrightarrow> inputChan s \<and> A_RecvInput \<in> set (log s)"
    by (simp_all add: join_inv_def)
  have g: "proc s = Running \<and> ipc s \<noteq> I_NotStarted \<longrightarrow>
       (\<exists>s'. run E (evs @ input_rest s) = Some s' \<and> inputChan s' \<and>
          uploads s' = upload_seq E ins \<and> input_closes s' = 1)"
    using input_goroutine_finishes [OF assms] by blast
  from p c ch f j g input_rest_only_input [of s] join_steps [where s = s and E = E] show ?thesis
    by (intro conjI) auto
qed

theorem uploads_in_order_then_join_witness:
  "DetermineInputs env_three_inputs =
     Inr [\<lparr>input_Name = ''a'', input_Path = ''x''\<rparr>, \<lparr>input_Name = ''b'', input_Path = ''''\<rparr>,
          \<lparr>input_Name = ''c'', input_Path = ''z''\<rparr>] \<and>
   (\<exists>s. run env_three_inputs sched_uploading = Some s \<and> proc s = Running \<and>
      ipc s = I_Uploading 0 \<and> mpc s = M_WaitInput \<and> \<not> inputChan s \<and>
      uploads s = [A_UploadBegin \<lparr>input_Name = ''a'', input_Path = ''x''\<rparr>] \<and>
      step env_three_inputs MainStep s = None \<and>
      (\<exists>s'. run env_three_inputs (sched_uploading @ input_rest s) = Some s' \<and> inputChan s' \<and>
         uploads s' = [A_UploadBegin \<lparr>input_Name = ''a'', input_Path = ''x''\<rparr>,
                       A_UploadEnd \<lparr>input_Name = ''a'', input_Path = ''x''\<rparr> True,
                       A_UploadBegin \<lparr>input_Name = ''c'', input_Path = ''z''\<rparr>,
                       A_UploadEnd \<lparr>input_Name = ''c'', input_Path = ''z''\<rparr> False] \<and>
         input_closes s' = 1)) \<and>
   (\<exists>s. run env_three_inputs sched_inputs_done = Some s \<and> proc s = Running \<and>
      mpc s = M_WaitInput \<and> inputChan s \<and> input_closes s = 1 \<and>
      uploads s = [A_UploadBegin \<lparr>input_Name = ''a'', input_Path = ''x''\<rparr>,
                   A_UploadEnd \<lparr>input_Name = ''a'', input_Path = ''x''\<rparr> True,
                   A_UploadBegin \<lparr>input_Name = ''c'', input_Path = ''z''\<rparr>,
                   A_UploadEnd \<lparr>input_Name = ''c'', input_Path = ''z''\<rparr> False] \<and>
      step env_three_inputs MainStep s =
        Some (s\<lparr>mpc := M_WaitOutput 0, log := log s @ [A_RecvInput]\<rparr>))"
proof -
  let ?ins = "[\<lparr>input_Name = ''a'', input_Path = ''x''\<rparr>, \<lparr>input_Name = ''b'', input_Path = ''''\<rparr>,
          \<lparr>input_Name = ''c'', input_Path = ''z''\<rparr>]"
  have d: "DetermineInputs env_three_inputs = Inr ?ins"
    by (simp add: env_three_inputs_def env_ok_def)
  have us: "upload_seq env_three_inputs ?ins =
      [A_UploadBegin \<lparr>input_Name = ''a'', input_Path = ''x''\<rparr>,
       A_UploadEnd \<lparr>input_Name = ''a'', input_Path = ''x''\<rparr> True,
       A_UploadBegin \<lparr>input_Name = ''c'', input_Path = ''z''\<rparr>,
       A_UploadEnd \<lparr>input_Name = ''c'', input_Path = ''z''\<rparr> False]"
    by (simp add: upload_seq_def env_three_inputs_def env_ok_def)
  have "map_option (\<lambda>s. (proc s, ipc s, mpc s, inputChan s, uploads s))
      (run env_three_inputs sched_uploading)
    = Some (Running, I_Uploading 0, M_WaitInput, False,
        [A_UploadBegin \<lparr>input_Name = ''a'', input_Path = ''x''\<rparr>])"
    by code_simp
  then obtain s where s: "run env_three_inputs sched_uploading = Some s" "proc s = Running"
    "ipc s = I_Uploading 0" "mpc s = M_WaitInput" "\<not> inputChan s"
    "uploads s = [A_UploadBegin \<lparr>input_Name = ''a'', input_Path = ''x''\<rparr>]"
    by auto
  have "map_option (\<lambda>s. (proc s, mpc s, inputChan s, length (outputs s)))
      (run env_three_inputs sched_inputs_done)
    = Some (Running, M_WaitInput, True, 2)"
    by code_simp
  then obtain t where t: "run env_three_inputs sched_inputs_done = Some t" "proc t = Running"
    "mpc t = M_WaitInput" "inputChan t" "length (outputs t) = 2"
    by auto
  from uploads_in_order_then_join [OF s(1) d] s(2-5)
  have a1: "step env_three_inputs MainStep s = None"
    and a2: "\<exists>s'. run env_three_inputs (sched_uploading @ input_rest s) = Some s' \<and>
      inputChan s' \<and> uploads s' = upload_seq env_three_inputs ?ins \<and> input_closes s' = 1"
    by simp_all
  from uploads_in_order_then_join [OF t(1) d] t(2-5)
  have b1: "uploads t = upload_seq env_three_inputs ?ins" "input_closes t = 1"
    and b2: "step env_three_inputs MainStep t =
      Some (t\<lparr>mpc := M_WaitOutput 0, log := log t @ [A_RecvInput]\<rparr>)"
    by simp_all
  from d s t a1 a2 b1 b2 show ?thesis unfolding us by blast
qed

lemma empty_output_counts:
  assumes "run E evs = Some s" and "j < length (otasks s)" and "otasks s ! j = (o', O_Start)"
  shows "output_closes j s = 0"
    and "output_closes j (s\<lparr>otasks := (otasks s)[j := (o', O_Done)],
             outputChans := (outputChans s)[j := True],
             log := log s @ [A_CloseOutput j]\<rparr>) = 1"
proof -
  from close_inv_run [OF assms(1)] assms(2,3) show z: "output_closes j s = 0"
    by (simp add: close_inv_def)
  then show "output_closes j (s\<lparr>otasks := (otasks s)[j := (o', O_Done)],
             outputChans := (outputChans s)[j := True],
             log := log s @ [A_CloseOutput j]\<rparr>) = 1"
    by (simp add: output_closes_def)
qed

text \<open>
  Claim C5. In every run: no upload is called for an input without a path and no download
  for an output without a path; every completion channel is closed at most once, and when
  the main path has reached its exit each has been closed exactly once. The input goroutine
  passes an input without a path in one step that is always possible, and once started it
  reaches the close of its channel by steps of its own, also when no input has a path: the
  channel is then closed exactly once, and the uploads done are those of the inputs with a
  path. The goroutine of an output without a path closes its channel in its first two
  steps, both always possible, logging nothing but the close: the count of closes of that
  channel goes from 0 to 1.
\<close>

theorem empty_path_signals_once:
  assumes "run E evs = Some s"
  shows "(\<forall>i. input_Path i = '''' \<longrightarrow> A_UploadBegin i \<notin> set (log s)) \<and>
    (\<forall>o'. output_Path o' = '''' \<longrightarrow> A_DownloadBegin o' \<notin> set (log s)) \<and>
    input_closes s \<le> 1 \<and> (\<forall>j. output_closes j s \<le> 1) \<and>
    (mpc s = M_Exited \<longrightarrow>
       input_closes s = 1 \<and> (\<forall>j < length (outputs s). output_closes j s = 1)) \<and>
    (\<forall>k. proc s = Running \<and> ipc s = I_Loop k \<and> k < length (inputs s) \<and>
         input_Path (inputs s ! k) = '''' \<longrightarrow>
       step E InputStep s = Some (s\<lparr>ipc := I_Loop (Suc k)\<rparr>)) \<and>
    list_all (\<lambda>ev. ev = InputStep) (input_rest s) \<and>
    (proc s = Running \<and> ipc s \<noteq> I_NotStarted \<longrightarrow>
       (\<exists>s'. run E (evs @ input_rest s) = Some s' \<and> inputChan s' \<and> input_closes s' = 1 \<and>
          uploads s' = upload_seq E (inputs s) \<and>
          (\<forall>i. input_Path i = '''' \<longrightarrow> A_UploadBegin i \<notin> set (log s')))) \<and>
    (\<forall>j o'. proc s = Running \<and> j < length (otasks s) \<and> otasks s ! j = (o', O_Start) \<and>
         output_Path o' = '''' \<longrightarrow>
       output_closes j s = 0 \<and>
       (\<exists>s'. run_from E [OutputStep j, OutputStep j] s = Some s' \<and>
          s' = s\<lparr>otasks := (otasks s)[j := (o', O_Done)],
                  outputChans := (outputChans s)[j := True],
                  log := log s @ [A_CloseOutput j]\<rparr> \<and>
          output_closes j s' = 1))"
proof -
  have wp: "\<forall>a \<in> set (log t). with_path a" if "run E evs' = Some t" for evs' t
    using transfer_inv_run [OF that] by (simp add: transfer_inv_def list_all_iff)
  have nu: "\<forall>i. input_Path i = '''' \<longrightarrow> A_UploadBegin i \<notin> set (log t)"
    if "run E evs' = Some t" for evs' t
    using wp [OF that] by force
  have d: "\<forall>o'. output_Path o' = '''' \<longrightarrow> A_DownloadBegin o' \<notin> set (log s)"
    using wp [OF assms] by force
  from close_inv_run [OF assms] have c: "input_closes s \<le> 1" "\<forall>j. output_closes j s \<le> 1"
    by (simp_all add: close_inv_def)
  have e: "mpc s = M_Exited \<longrightarrow>
      input_closes s = 1 \<and> (\<forall>j < length (outputs s). output_closes j s = 1)"
    using all_closed_at_exit [OF assms] by blast
  have i: "\<forall>k. proc s = Running \<and> ipc s = I_Loop k \<and> k < length (inputs s) \<and>
        input_Path (inputs s ! k) = '''' \<longrightarrow>
      step E InputStep s = Some (s\<lparr>ipc := I_Loop (Suc k)\<rparr>)"
    by (simp add: step_def input_step_def)
  have g: "\<exists>s'. run E (evs @ input_rest s) = Some s' \<and> inputChan s' \<and> input_closes s' = 1 \<and>
          uploads s' = upload_seq E (inputs s) \<and>
          (\<forall>i. input_Path i = '''' \<longrightarrow> A_UploadBegin i \<notin> set (log s'))"
    if "proc s = Running" "ipc s \<noteq> I_NotStarted"
  proof -
    from inputs_inv_run [OF assms] that(2) have di: "DetermineInputs E = Inr (inputs s)"
      by (simp add: inputs_inv_def)
    from input_goroutine_finishes [OF assms di that] obtain s'
      where s': "run E (evs @ input_rest s) = Some s'" "inputChan s'"
        "uploads s' = upload_seq E (inputs s)" "input_closes s' = 1"
      by blast
    with nu [OF s'(1)] show ?thesis by blast
  qed
  have o: "\<forall>j o'. proc s = Running \<and> j < length (otasks s) \<and> otasks s ! j = (o', O_Start) \<and>
         output_Path o' = '''' \<longrightarrow>
       output_closes j s = 0 \<and>
       (\<exists>s'. run_from E [OutputStep j, OutputStep j] s = Some s' \<and>
          s' = s\<lparr>otasks := (otasks s)[j := (o', O_Done)],
                  outputChans := (outputChans s)[j := True],
                  log := log s @ [A_CloseOutput j]\<rparr> \<and>
          output_closes j s' = 1)"
    using empty_output_fires [where s = s and E = E] empty_output_counts [OF assms]
    by blast
  from nu [OF assms] d c e i g o input_rest_only_input [of s] show ?thesis by blast
qed

theorem empty_path_signals_once_witness:
  "(\<exists>s. run env_ok sched_plain = Some s \<and> mpc s = M_Exited \<and> length (outputs s) = 2 \<and>
      input_closes s = 1 \<and> output_closes 0 s = 1 \<and> output_closes 1 s = 1 \<and>
      A_UploadBegin \<lparr>input_Name = ''b'', input_Path = ''''\<rparr> \<notin> set (log s) \<and>
      A_DownloadBegin \<lparr>output_Name = ''p'', output_Path = ''''\<rparr> \<notin> set (log s)) \<and>
   (\<exists>s. run env_no_paths sched_inputs_started = Some s \<and> proc s = Running \<and> ipc s = I_Loop 0 \<and>
      input_Path (inputs s ! 0) = '''' \<and> input_Path (inputs s ! 1) = '''' \<and>
      length (inputs s) = 2 \<and> input_closes s = 0 \<and>
      step env_no_paths InputStep s = Some (s\<lparr>ipc := I_Loop 1\<rparr>) \<and>
      (\<exists>s'. run env_no_paths (sched_inputs_started @ input_rest s) = Some s' \<and> inputChan s' \<and>
         input_closes s' = 1 \<and> uploads s' = [])) \<and>
   (\<exists>s. run env_ok sched_mid = Some s \<and> proc s = Running \<and>
      otasks s ! 1 = (\<lparr>output_Name = ''p'', output_Path = ''''\<rparr>, O_Start) \<and>
      output_closes 1 s = 0 \<and>
      (\<exists>s'. run_from env_ok [OutputStep 1, OutputStep 1] s = Some s' \<and>
         log s' = log s @ [A_CloseOutput 1] \<and> outputChans s' = (outputChans s)[1 := True] \<and>
         output_closes 1 s' = 1))"
proof -
  have "map_option (\<lambda>s. (mpc s, length (outputs s))) (run env_ok sched_plain)
      = Some (M_Exited, 2)"
    by code_simp
  then obtain s where r: "run env_ok sched_plain = Some s" and m: "mpc s = M_Exited"
    and l: "length (outputs s) = 2"
    by auto
  from empty_path_signals_once [OF r] m l r
  have a: "\<exists>s. run env_ok sched_plain = Some s \<and> mpc s = M_Exited \<and> length (outputs s) = 2 \<and>
      input_closes s = 1 \<and> output_closes 0 s = 1 \<and> output_closes 1 s = 1 \<and>
      A_UploadBegin \<lparr>input_Name = ''b'', input_Path = ''''\<rparr> \<notin> set (log s) \<and>
      A_DownloadBegin \<lparr>output_Name = ''p'', output_Path = ''''\<rparr> \<notin> set (log s)"
    by simp
  have "map_option (\<lambda>s. (proc s, ipc s, inputs s, input_closes s))
      (run env_no_paths sched_inputs_started)
    = Some (Running, I_Loop 0, [\<lparr>input_Name = ''b'', input_Path = ''''\<rparr>,
        \<lparr>input_Name = ''d'', input_Path = ''''\<rparr>], 0)"
    by code_simp
  then obtain u where u: "run env_no_paths sched_inputs_started = Some u" "proc u = Running"
    "ipc u = I_Loop 0"
    "inputs u = [\<lparr>input_Name = ''b'', input_Path = ''''\<rparr>, \<lparr>input_Name = ''d'', input_Path = ''''\<rparr>]"
    "input_closes u = 0"
    by auto
  have us: "upload_seq env_no_paths (inputs u) = []" by (simp add: u(4) upload_seq_def)
  from empty_path_signals_once [OF u(1)] u(2-4)
  have b1: "step env_no_paths InputStep u = Some (u\<lparr>ipc := I_Loop 1\<rparr>)"
    by simp
  from empty_path_signals_once [OF u(1)] u(2,3)
  have b2: "\<exists>s'. run env_no_paths (sched_inputs_started @ input_rest u) = Some s' \<and>
      inputChan s' \<and> input_closes s' = 1 \<and> uploads s' = upload_seq env_no_paths (inputs u)"
    by auto
  from u b1 b2 have b: "\<exists>s. run env_no_paths sched_inputs_started = Some s \<and> proc s = Running \<and>
      ipc s = I_Loop 0 \<and>
      input_Path (inputs s ! 0) = '''' \<and> input_Path (inputs s ! 1) = '''' \<and>
      length (inputs s) = 2 \<and> input_closes s = 0 \<and>
      step env_no_paths InputStep s = Some (s\<lparr>ipc := I_Loop 1\<rparr>) \<and>
      (\<exists>s'. run env_no_paths (sched_inputs_started @ input_rest s) = Some s' \<and> inputChan s' \<and>
         input_closes s' = 1 \<and> uploads s' = [])"
    unfolding us by simp
  have "map_option (\<lambda>s. (proc s, length (otasks s), otasks s ! 1)) (run env_ok sched_mid)
      = Some (Running, 2, (\<lparr>output_Name = ''p'', output_Path = ''''\<rparr>, O_Start))"
    by code_simp
  then obtain t where t: "run env_ok sched_mid = Some t" "proc t = Running"
    "length (otasks t) = 2"
    "otasks t ! 1 = (\<lparr>output_Name = ''p'', output_Path = ''''\<rparr>, O_Start)"
    by auto
  note last = empty_path_signals_once [OF t(1), THEN conjunct2, THEN conjunct2, THEN conjunct2,
      THEN conjunct2, THEN conjunct2, THEN conjunct2, THEN conjunct2, THEN conjunct2,
      rule_format, of 1 "\<lparr>output_Name = ''p'', output_Path = ''''\<rparr>"]
  from last t(2-4)
  have "output_closes 1 t = 0 \<and>
      (\<exists>s'. run_from env_ok [OutputStep 1, OutputStep 1] t = Some s' \<and>
         s' = t\<lparr>otasks := (otasks t)[1 := (\<lparr>output_Name = ''p'', output_Path = ''''\<rparr>, O_Done)],
                 outputChans := (outputChans t)[1 := True],
                 log := log t @ [A_CloseOutput 1]\<rparr> \<and>
         output_closes 1 s' = 1)"
    by (simp del: run_from.simps)
  then have c: "\<exists>s. run env_ok sched_mid = Some s \<and> proc s = Running \<and>
      otasks s ! 1 = (\<lparr>output_Name = ''p'', output_Path = ''''\<rparr>, O_Start) \<and>
      output_closes 1 s = 0 \<and>
      (\<exists>s'. run_from env_ok [OutputStep 1, OutputStep 1] s = Some s' \<and>
         log s' = log s @ [A_CloseOutput 1] \<and> outputChans s' = (outputChans s)[1 := True] \<and>
         output_closes 1 s' = 1)"
    using t by auto
  from a b c show ?thesis by (intro conjI)
qed

lemma outputs_inv_step:
  assumes i: "outputs_inv E s" and st: "step E ev s = Some s'"
  shows "outputs_inv E s'"
  using st
proof (cases rule: step_cases)
  case main
  with i show ?thesis
    by (cases "mpc s")
      (auto simp: Execute_step_def outputs_inv_def split: option.splits sum.splits if_splits)
next
  case watcher
  with i show ?thesis by (simp add: outputs_inv_def watcher_frame)
next
  case inp
  with i show ?thesis by (simp add: outputs_inv_def input_frame)
next
  case (outp j)
  with i show ?thesis by (simp add: outputs_inv_def output_frame)
next
  case (sign sig)
  with i show ?thesis by (simp add: outputs_inv_def signal_frame)
qed

lemma outputs_inv_init: "outputs_inv E init"
  by (simp add: outputs_inv_def init_def)

lemma outputs_inv_run: "run E evs = Some s \<Longrightarrow> outputs_inv E s"
  unfolding run_def
  by (rule run_from_invariant [where P = "outputs_inv E"])
    (auto intro: outputs_inv_init outputs_inv_step)

lemma main_advances:
  assumes r: "run E evs = Some s" and fe: "first_error E = None" and be: "BuildEvents E = None"
    and ou: "DetermineOutputs E = Inr outs" and p: "proc s = Running"
    and d: "main_dist (length outs) (mpc s) > 0"
  shows "\<exists>s'. step E MainStep s = Some s' \<and> proc s' = Running \<and>
    main_dist (length outs) (mpc s') < main_dist (length outs) (mpc s)"
proof -
  from fe obtain ins b where c: "TargetClient E = None" "ValidateClient E = None"
    "LoadTaskConfig E = None" "DetermineInputs E = Inr ins" "CreateBuild E = Inr b"
    by (auto simp: first_error_def split: option.splits sum.splits)
  from outputs_inv_run [OF r] ou
  have o: "unresolved_out (mpc s) \<or> outputs s = outs" by (auto simp: outputs_inv_def)
  from spawn_inv_run [OF r]
  have sp: "spawning (mpc s) (length (otasks s)) (length (outputs s))"
    by (simp add: spawn_inv_def)
  from p d c ou be o sp show ?thesis
    by (cases "mpc s") (auto simp: step_def Execute_step_def)
qed

lemma main_to_join:
  assumes fe: "first_error E = None" and be: "BuildEvents E = None"
    and ou: "DetermineOutputs E = Inr outs"
  shows "run E evs = Some s \<Longrightarrow> proc s = Running \<Longrightarrow>
    \<exists>n s'. run E (evs @ replicate n MainStep) = Some s' \<and> proc s' = Running \<and>
      main_dist (length outs) (mpc s') = 0"
proof (induction "main_dist (length outs) (mpc s)" arbitrary: evs s rule: less_induct)
  case less
  show ?case
  proof (cases "main_dist (length outs) (mpc s) = 0")
    case True
    with less.prems have "run E (evs @ replicate 0 MainStep) = Some s \<and> proc s = Running \<and>
      main_dist (length outs) (mpc s) = 0"
      by simp
    then show ?thesis by blast
  next
    case False
    then have "main_dist (length outs) (mpc s) > 0" by simp
    from main_advances [OF less.prems(1) fe be ou less.prems(2) this] obtain t
      where t: "step E MainStep s = Some t" "proc t = Running"
        "main_dist (length outs) (mpc t) < main_dist (length outs) (mpc s)"
      by blast
    from t(1) less.prems(1) have rt: "run E (evs @ [MainStep]) = Some t"
      by (simp add: run_append)
    from less.hyps [OF t(3) rt t(2)] obtain n s'
      where "run E ((evs @ [MainStep]) @ replicate n MainStep) = Some s'" "proc s' = Running"
        "main_dist (length outs) (mpc s') = 0"
      by blast
    then have "run E (evs @ replicate (Suc n) MainStep) = Some s' \<and> proc s' = Running \<and>
        main_dist (length outs) (mpc s') = 0"
      by simp
    then show ?thesis by blast
  qed
qed

lemma output_rest_done:
  assumes "proc s = Running" and "j < length (otasks s)"
  shows "\<exists>t. run_from E (output_rest j (otasks s ! j)) s = Some t \<and> proc t = Running \<and>
    mpc t = mpc s \<and> ipc t = ipc s \<and> inputChan t = inputChan s \<and>
    otasks t = (otasks s)[j := (fst (otasks s ! j), O_Done)]"
proof -
  obtain o' pc where t: "otasks s ! j = (o', pc)" by (cases "otasks s ! j")
  with assms show ?thesis
    by (cases pc) (auto simp: step_def output_step_def list_update_same_conv [THEN iffD2, symmetric])
qed

lemma tasks_sched_done:
  assumes "proc s = Running" and "k \<le> length (otasks s)"
  shows "\<exists>s'. run_from E (tasks_sched k (drop k (otasks s))) s = Some s' \<and> proc s' = Running \<and>
    mpc s' = mpc s \<and> ipc s' = ipc s \<and> inputChan s' = inputChan s \<and>
    length (otasks s') = length (otasks s) \<and>
    (\<forall>j. k \<le> j \<and> j < length (otasks s) \<longrightarrow> snd (otasks s' ! j) = O_Done) \<and>
    (\<forall>j < k. otasks s' ! j = otasks s ! j)"
  using assms
proof (induction "length (otasks s) - k" arbitrary: s k)
  case 0
  then show ?case by auto
next
  case (Suc d)
  then have kl: "k < length (otasks s)" by simp
  then have dr: "drop k (otasks s) = otasks s ! k # drop (Suc k) (otasks s)"
    by (simp add: Cons_nth_drop_Suc)
  from output_rest_done [OF Suc.prems(1) kl, of E] obtain t
    where t: "run_from E (output_rest k (otasks s ! k)) s = Some t" "proc t = Running"
      "mpc t = mpc s" "ipc t = ipc s" "inputChan t = inputChan s"
      "otasks t = (otasks s)[k := (fst (otasks s ! k), O_Done)]"
    by blast
  have d: "d = length (otasks t) - Suc k" using Suc.hyps(2) t(6) by simp
  have "\<exists>s'. run_from E (tasks_sched (Suc k) (drop (Suc k) (otasks t))) t = Some s' \<and>
    proc s' = Running \<and> mpc s' = mpc t \<and> ipc s' = ipc t \<and> inputChan s' = inputChan t \<and>
    length (otasks s') = length (otasks t) \<and>
    (\<forall>j. Suc k \<le> j \<and> j < length (otasks t) \<longrightarrow> snd (otasks s' ! j) = O_Done) \<and>
    (\<forall>j < Suc k. otasks s' ! j = otasks t ! j)"
    using t(2,6) kl by (intro Suc.hyps(1) [OF d]) simp_all
  then obtain s' where s': "run_from E (tasks_sched (Suc k) (drop (Suc k) (otasks s))) t = Some s'"
    "proc s' = Running" "mpc s' = mpc s" "ipc s' = ipc s" "inputChan s' = inputChan s"
    "length (otasks s') = length (otasks s)"
    "\<forall>j. Suc k \<le> j \<and> j < length (otasks s) \<longrightarrow> snd (otasks s' ! j) = O_Done"
    "\<forall>j < Suc k. otasks s' ! j = otasks t ! j"
    using t by auto
  from s'(8) t(6) kl have k: "snd (otasks s' ! k) = O_Done"
    and lo: "\<forall>j < k. otasks s' ! j = otasks s ! j"
    by simp_all
  have "run_from E (tasks_sched k (drop k (otasks s))) s = Some s'"
    unfolding dr using t(1) s'(1) by (simp add: run_from_append)
  moreover have "\<forall>j. k \<le> j \<and> j < length (otasks s) \<longrightarrow> snd (otasks s' ! j) = O_Done"
  proof (intro allI impI)
    fix j assume "k \<le> j \<and> j < length (otasks s)"
    then have "j = k \<or> (Suc k \<le> j \<and> j < length (otasks s))" by arith
    with k s'(7) show "snd (otasks s' ! j) = O_Done" by blast
  qed
  ultimately show ?case using s'(2-6) lo by blast
qed

lemma output_rest_no_watcher: "list_all (\<lambda>ev. \<not> watcher_event ev) (output_rest j t)"
  by (cases t; cases "snd t") auto

lemma tasks_sched_no_watcher: "list_all (\<lambda>ev. \<not> watcher_event ev) (tasks_sched k ts)"
  by (induction ts arbitrary: k) (auto simp: output_rest_no_watcher)

lemma dist0_cases:
  assumes r: "run E evs = Some s" and fe: "first_error E = None" and be: "BuildEvents E = None"
    and p: "proc s = Running" and d: "main_dist n (mpc s) = 0"
  shows "mpc s = M_WaitInput \<or> (\<exists>k. mpc s = M_WaitOutput k) \<or> mpc s = M_Exit"
proof -
  from path_inv_run [OF r] have "reached E (mpc s)" by (simp add: path_inv_def)
  moreover from exit_inv_run [OF r] p have "mpc s \<noteq> M_Exited" by (simp add: exit_inv_def)
  ultimately show ?thesis using d fe be by (cases "mpc s") auto
qed

lemma join_to_exit:
  assumes r: "run E evs = Some s" and fe: "first_error E = None" and be: "BuildEvents E = None"
    and p: "proc s = Running" and d: "main_dist n (mpc s) = 0"
    and ic: "inputChan s" and oc: "\<forall>j < length (outputChans s). outputChans s ! j"
  shows "\<exists>m. map_option proc (run_from E (replicate m MainStep) s) = Some (Exited (Render E))"
proof -
  from dist0_cases [OF r fe be p d]
  have c: "mpc s = M_WaitInput \<or> (\<exists>k. mpc s = M_WaitOutput k) \<or> mpc s = M_Exit" .
  then have "rendered (mpc s)" "streaming (mpc s)" by auto
  with exit_inv_run [OF r] spawn_inv_run [OF r]
  have x: "exitCode s = Render E" and l: "length (outputChans s) = length (outputs s)"
    by (simp_all add: exit_inv_def spawn_inv_def)
  from c show ?thesis
  proof (elim disjE exE)
    assume m: "mpc s = M_WaitInput"
    from phase_join [OF p m ic l, of E] oc l x
    have "map_option proc (run_from E ([MainStep] @ loop_sched (outputs s) @ [MainStep]) s)
        = Some (Exited (Render E))"
      by simp
    moreover have "[MainStep] @ loop_sched (outputs s) @ [MainStep]
        = replicate (length (loop_sched (outputs s)) + 2) MainStep"
      by (simp add: loop_sched_def replicate_append_same)
    ultimately show ?thesis by (metis (no_types))
  next
    fix k assume m: "mpc s = M_WaitOutput k"
    from wait_inv_run [OF r] m have kl: "k \<le> length (outputChans s)" by (simp add: wait_inv_def)
    from phase_wait [OF p m kl oc, of E] obtain u
      where u: "run_from E (replicate (Suc (length (outputChans s) - k)) MainStep) s = Some u"
        "proc u = Running" "mpc u = M_Exit" "exitCode u = exitCode s"
      by blast
    from u(2-4) x have "map_option proc (run_from E [MainStep] u) = Some (Exited (Render E))"
      by (simp add: step_def Execute_step_def)
    with u(1) have "map_option proc
        (run_from E (replicate (Suc (length (outputChans s) - k)) MainStep @ [MainStep]) s)
        = Some (Exited (Render E))"
      by (simp only: run_from_append option.case)
    moreover have "replicate (Suc (length (outputChans s) - k)) MainStep @ [MainStep]
        = replicate (Suc (Suc (length (outputChans s) - k))) MainStep"
      by (simp add: replicate_append_same)
    ultimately show ?thesis by (metis (no_types))
  next
    assume m: "mpc s = M_Exit"
    with p x have "map_option proc (run_from E (replicate 1 MainStep) s) = Some (Exited (Render E))"
      by (simp add: step_def Execute_step_def)
    then show ?thesis by blast
  qed
qed

text \<open>
  When every call succeeds, any run in which the process still runs can be continued to the
  exit of line 127, with no signal and no step of the watcher: the main path goes on to its
  join, the input goroutine and the output goroutines run to their ends, and the main path
  exits with the code that \<^verbatim>\<open>Render\<close> returned.
\<close>

lemma can_exit:
  assumes r: "run E evs = Some s" and fe: "first_error E = None" and be: "BuildEvents E = None"
    and p: "proc s = Running"
  shows "\<exists>evs'. list_all (\<lambda>ev. \<not> watcher_event ev) evs' \<and>
    map_option proc (run E (evs @ evs')) = Some (Exited (Render E))"
proof -
  from fe obtain ins outs where di: "DetermineInputs E = Inr ins"
    and ou: "DetermineOutputs E = Inr outs"
    by (auto simp: first_error_def split: option.splits sum.splits)
  from main_to_join [OF fe be ou r p] obtain n s1
    where s1: "run E (evs @ replicate n MainStep) = Some s1" "proc s1 = Running"
      "main_dist (length outs) (mpc s1) = 0"
    by blast
  from dist0_cases [OF s1(1) fe be s1(2,3)] have "streaming (mpc s1)" by auto
  with started_inv_run [OF s1(1)] have n1: "ipc s1 \<noteq> I_NotStarted"
    by (cases "mpc s1") (simp_all add: started_inv_def)
  from input_goroutine_finishes [OF s1(1) di s1(2) n1] obtain s2
    where s2: "run E ((evs @ replicate n MainStep) @ input_rest s1) = Some s2" "inputChan s2"
      "mpc s2 = mpc s1" "proc s2 = Running"
    by blast
  from tasks_sched_done [of s2 0 E] s2(4) obtain s3
    where s3: "run_from E (tasks_sched 0 (otasks s2)) s2 = Some s3" "proc s3 = Running"
      "mpc s3 = mpc s2" "inputChan s3 = inputChan s2"
      "\<forall>j < length (otasks s3). snd (otasks s3 ! j) = O_Done"
    by auto
  let ?evs3 = "((evs @ replicate n MainStep) @ input_rest s1) @ tasks_sched 0 (otasks s2)"
  from s3(1) have r3: "run E ?evs3 = Some s3" by (simp only: run_append [OF s2(1)])
  from chan_inv_run [OF r3] s3(5) have oc: "\<forall>j < length (outputChans s3). outputChans s3 ! j"
    by (simp add: chan_inv_def)
  from join_to_exit [OF r3 fe be s3(2) _ _ oc, of "length outs"] s1(3) s2(2,3) s3(3,4)
  obtain m where "map_option proc (run_from E (replicate m MainStep) s3) = Some (Exited (Render E))"
    by auto
  then have "map_option proc (run E (?evs3 @ replicate m MainStep)) = Some (Exited (Render E))"
    by (simp only: run_append [OF r3])
  then have "map_option proc (run E (evs @ (replicate n MainStep @ input_rest s1
      @ tasks_sched 0 (otasks s2) @ replicate m MainStep))) = Some (Exited (Render E))"
    by (simp only: append_assoc)
  moreover have "list_all (\<lambda>ev. \<not> watcher_event ev) (replicate n MainStep @ input_rest s1
      @ tasks_sched 0 (otasks s2) @ replicate m MainStep)"
    using input_rest_only_input [of s1] tasks_sched_no_watcher [of 0 "otasks s2"]
    by (auto simp: list_all_iff)
  ultimately show ?thesis by blast
qed

lemma no_watcher_no_signal:
  "list_all (\<lambda>ev. \<not> watcher_event ev) evs \<Longrightarrow> filter is_Signal evs = []"
proof (induction evs)
  case Nil
  then show ?case by simp
next
  case (Cons ev evs)
  then show ?case by (cases ev) simp_all
qed

text \<open>
  Claim C2. In every run with no signal, an exit of the process is the one of line 127, and
  its code is the integer that \<^verbatim>\<open>eventstream.Render\<close> returned. And the exit is reached
  when the calls of lines 30 to 77 and \<^verbatim>\<open>BuildEvents\<close> succeed: every run with no signal
  in which the process still runs can be continued, with no signal, to an exit with that
  code, and the run \<open>full_sched\<close> from the start is one that ends so. The environment \<open>E\<close>
  is arbitrary: whatever \<open>Upload E\<close> and \<open>Download E\<close> answer for any binding, the code is
  \<open>Render E\<close>.
\<close>

theorem exit_code_is_render:
  "(run E evs = Some s \<longrightarrow> filter is_Signal evs = [] \<longrightarrow> proc s = Exited c \<longrightarrow>
      c = Render E \<and> mpc s = M_Exited \<and> \<not> forced s) \<and>
   (run E evs = Some s \<longrightarrow> filter is_Signal evs = [] \<longrightarrow> proc s = Running \<longrightarrow>
    first_error E = None \<longrightarrow> BuildEvents E = None \<longrightarrow>
      (\<exists>evs'. filter is_Signal (evs @ evs') = [] \<and>
         map_option proc (run E (evs @ evs')) = Some (Exited (Render E)))) \<and>
   (first_error E = None \<longrightarrow> BuildEvents E = None \<longrightarrow>
    DetermineInputs E = Inr ins \<longrightarrow> DetermineOutputs E = Inr outs \<longrightarrow>
      filter is_Signal (full_sched ins outs) = [] \<and>
      map_option proc (run E (full_sched ins outs)) = Some (Exited (Render E)))"
proof (intro conjI impI)
  assume r: "run E evs = Some s" and ns: "filter is_Signal evs = []" and ex: "proc s = Exited c"
  from ns have "\<forall>ev \<in> set evs. \<not> is_Signal ev" by (simp add: filter_empty_conv)
  from quiet_inv_run [OF r this] have q: "\<not> received (wpc s)" by (simp add: quiet_inv_def)
  then have w: "wpc s \<noteq> W_Exited" by auto
  from exit_inv_run [OF r] ex w show "c = Render E" and "mpc s = M_Exited"
    by (simp_all add: exit_inv_def)
  from watcher_inv_run [OF r] w show "\<not> forced s"
    by (simp add: watcher_inv_def forced_wlog)
next
  assume r: "run E evs = Some s" and ns: "filter is_Signal evs = []" and p: "proc s = Running"
    and fe: "first_error E = None" and be: "BuildEvents E = None"
  from can_exit [OF r fe be p] obtain evs'
    where "list_all (\<lambda>ev. \<not> watcher_event ev) evs'"
      "map_option proc (run E (evs @ evs')) = Some (Exited (Render E))"
    by blast
  with ns no_watcher_no_signal [of evs']
  show "\<exists>evs'. filter is_Signal (evs @ evs') = [] \<and>
         map_option proc (run E (evs @ evs')) = Some (Exited (Render E))"
    by auto
next
  assume a: "first_error E = None" "BuildEvents E = None" "DetermineInputs E = Inr ins"
    "DetermineOutputs E = Inr outs"
  from exit_reachable [OF a] show "filter is_Signal (full_sched ins outs) = []"
    and "map_option proc (run E (full_sched ins outs)) = Some (Exited (Render E))"
    by simp_all
qed

theorem exit_code_is_render_witness:
  "filter is_Signal sched_plain = [] \<and>
   (\<exists>s. run env_upload_fails sched_plain = Some s \<and> proc s = Exited 3 \<and>
      Render env_upload_fails = 3 \<and> mpc s = M_Exited \<and> \<not> forced s) \<and>
   first_error env_upload_fails = None \<and> BuildEvents env_upload_fails = None \<and>
   filter is_Signal sched_mid = [] \<and>
   (\<exists>s. run env_upload_fails sched_mid = Some s \<and> proc s = Running \<and>
      (\<exists>evs'. filter is_Signal (sched_mid @ evs') = [] \<and>
         map_option proc (run env_upload_fails (sched_mid @ evs')) = Some (Exited 3))) \<and>
   map_option proc
     (run env_upload_fails
        (full_sched [\<lparr>input_Name = ''a'', input_Path = ''x''\<rparr>,
                     \<lparr>input_Name = ''b'', input_Path = ''''\<rparr>]
                    [\<lparr>output_Name = ''o'', output_Path = ''y''\<rparr>,
                     \<lparr>output_Name = ''p'', output_Path = ''''\<rparr>]))
     = Some (Exited 3)"
proof -
  have ns: "filter is_Signal sched_plain = []" by (simp add: sched_plain_def)
  have nm: "filter is_Signal sched_mid = []" by (simp add: sched_mid_def)
  have "map_option proc (run env_upload_fails sched_plain) = Some (Exited 3)" by code_simp
  then obtain s where r: "run env_upload_fails sched_plain = Some s" and p: "proc s = Exited 3"
    by auto
  have "map_option proc (run env_upload_fails sched_mid) = Some Running" by code_simp
  then obtain t where rt: "run env_upload_fails sched_mid = Some t" and pt: "proc t = Running"
    by auto
  have e: "first_error env_upload_fails = None" "BuildEvents env_upload_fails = None"
    "DetermineInputs env_upload_fails = Inr [\<lparr>input_Name = ''a'', input_Path = ''x''\<rparr>,
                     \<lparr>input_Name = ''b'', input_Path = ''''\<rparr>]"
    "DetermineOutputs env_upload_fails = Inr [\<lparr>output_Name = ''o'', output_Path = ''y''\<rparr>,
                     \<lparr>output_Name = ''p'', output_Path = ''''\<rparr>]"
    "Render env_upload_fails = 3"
    by (simp_all add: first_error_def env_upload_fails_def env_ok_def)
  from exit_code_is_render [of env_upload_fails sched_plain s 3] r ns p
  have a: "3 = Render env_upload_fails \<and> mpc s = M_Exited \<and> \<not> forced s" by simp
  from exit_code_is_render [of env_upload_fails sched_mid t] rt nm pt e
  have b: "\<exists>evs'. filter is_Signal (sched_mid @ evs') = [] \<and>
      map_option proc (run env_upload_fails (sched_mid @ evs')) = Some (Exited 3)"
    by simp
  from exit_code_is_render [of env_upload_fails] e
  have c: "map_option proc
     (run env_upload_fails
        (full_sched [\<lparr>input_Name = ''a'', input_Path = ''x''\<rparr>,
                     \<lparr>input_Name = ''b'', input_Path = ''''\<rparr>]
                    [\<lparr>output_Name = ''o'', output_Path = ''y''\<rparr>,
                     \<lparr>output_Name = ''p'', output_Path = ''''\<rparr>]))
     = Some (Exited 3)"
    by simp
  from a b c ns nm r p rt pt e show ?thesis by auto
qed

end
